theory Spec2Isabelle
  imports Main "HOL-Library.Word"
begin

section \<open>Data model of the order-entry limit order book\<close>

text \<open>
  The scalar types of \<^verbatim>\<open>structures.hpp\<close>. \<^verbatim>\<open>Shares\<close> and \<^verbatim>\<open>Capital\<close> are
  \<^verbatim>\<open>int64_t\<close>; they are kept as 64-bit words (two's complement, read with \<open>sint\<close>),
  so that the mixed signed/unsigned arithmetic of \<^verbatim>\<open>Account::fill\<close> is the
  word arithmetic the machine performs.
\<close>

type_synonym UID = "64 word"
type_synonym Quantity = "32 word"
type_synonym Price = "64 word"
type_synonym Count = "32 word"
type_synonym Volume = "64 word"
type_synonym Shares = "64 word"
type_synonym Capital = "64 word"
type_synonym SequenceNumber = "32 word"

datatype Side = Sell | Buy

text \<open>Pointers to accounts and to connections are references into two heaps.\<close>

type_synonym account_ref = nat
type_synonym connection_ref = nat

text \<open>
  \<^verbatim>\<open>struct Order\<close>. The intrusive list links live in the queue of the price level;
  the back-reference \<^verbatim>\<open>Order::limit\<close> is the level keyed by the order's price in the
  tree of the order's side. A pointer to an order stored in the uid map is the map key.
\<close>

record Order =
  uid :: UID
  side :: Side
  quantity :: Quantity
  price :: Price
  account :: account_ref

text \<open>\<^verbatim>\<open>struct Limit\<close>: one price level with its FIFO queue (head first).\<close>

record Limit =
  key :: Price
  count :: Count
  volume :: Volume
  queue :: "UID list"

text \<open>\<^verbatim>\<open>struct Account\<close> and its subclass \<^verbatim>\<open>SystemAccount\<close>.\<close>

record Account =
  shares :: Shares
  capital :: Capital
  orders :: "UID set"

record SystemAccount = Account +
  username :: string
  password :: string
  handler :: "connection_ref option"
  is_connected :: bool

subsection \<open>Account bookkeeping (\<^verbatim>\<open>structures.hpp\<close>)\<close>

definition account_limit :: "UID \<Rightarrow> 'a Account_scheme \<Rightarrow> 'a Account_scheme" where
  "account_limit order a = a\<lparr>orders := insert order (orders a)\<rparr>"

definition account_cancel :: "UID \<Rightarrow> 'a Account_scheme \<Rightarrow> 'a Account_scheme" where
  "account_cancel order a = a\<lparr>orders := orders a - {order}\<rparr>"

text \<open>
  \<^verbatim>\<open>shares -= quantity\<close> widens the 32-bit quantity to 64 bits;
  \<^verbatim>\<open>quantity * price\<close> is an unsigned 64-bit product (it wraps), added to or
  subtracted from the capital modulo \<open>2 ^ 64\<close>.
\<close>

definition fill :: "Side \<Rightarrow> Quantity \<Rightarrow> Price \<Rightarrow> 'a Account_scheme \<Rightarrow> 'a Account_scheme" where
  "fill s q p a =
     (case s of
        Sell \<Rightarrow> a\<lparr>shares := shares a - ucast q, capital := capital a + ucast q * p\<rparr>
      | Buy \<Rightarrow> a\<lparr>shares := shares a + ucast q, capital := capital a - ucast q * p\<rparr>)"

text \<open>
  The four callbacks. The first argument is the pointer to the resting order (its key in
  the uid map), \<open>limit\<close> and \<open>market\<close> are the two orders as they are when the callback
  fires.
\<close>

definition limit_fill :: "UID \<Rightarrow> Order \<Rightarrow> Order \<Rightarrow> 'a Account_scheme \<Rightarrow> 'a Account_scheme" where
  "limit_fill ptr limit market a =
     fill (side limit) (quantity limit) (price limit) (account_cancel ptr a)"

definition limit_partial :: "Order \<Rightarrow> Order \<Rightarrow> 'a Account_scheme \<Rightarrow> 'a Account_scheme" where
  "limit_partial limit market a = fill (side limit) (quantity market) (price limit) a"

definition market_fill :: "Order \<Rightarrow> Order \<Rightarrow> 'a Account_scheme \<Rightarrow> 'a Account_scheme" where
  "market_fill limit market a = fill (side market) (quantity market) (price limit) a"

definition market_partial :: "Order \<Rightarrow> Order \<Rightarrow> 'a Account_scheme \<Rightarrow> 'a Account_scheme" where
  "market_partial limit market a = fill (side market) (quantity limit) (price limit) a"

section \<open>Price levels and the price index of one side\<close>

text \<open>
  Modelled from the spec: \<^verbatim>\<open>limit_tree.hpp\<close> (\<^verbatim>\<open>LimitTree<side>\<close> with
  \<^verbatim>\<open>limit\<close>, \<^verbatim>\<open>cancel\<close>, \<^verbatim>\<open>market\<close>, \<^verbatim>\<open>volume_at\<close>, \<^verbatim>\<open>count_at\<close>) and the
  headers it includes (\<^verbatim>\<open>binary_search_tree.hpp\<close>, \<^verbatim>\<open>doubly_linked_list.hpp\<close>) are
  not among the sources; only their callers and their tests are. The definitions of this
  section follow sections 3, 4.1 and 4.2 of the specification, and agree with
  \<^verbatim>\<open>test_limit_tree.cpp\<close>. The ordered index is a list of levels in ascending price
  order: the best level of the sell side is the first, of the buy side the last. The
  market-data feed of the tree is left out (the book is built with \<^verbatim>\<open>feed = nullptr\<close>).
\<close>

record LimitTree =
  limits :: "Limit list"
  tree_count :: Count
  tree_volume :: Volume

definition empty_tree :: LimitTree where
  "empty_tree = \<lparr>limits = [], tree_count = 0, tree_volume = 0\<rparr>"

definition best :: "Side \<Rightarrow> LimitTree \<Rightarrow> Limit option" where
  "best s t =
     (case limits t of
        [] \<Rightarrow> None
      | l # ls \<Rightarrow> Some (case s of Sell \<Rightarrow> l | Buy \<Rightarrow> last (l # ls)))"

definition find_limit :: "Price \<Rightarrow> LimitTree \<Rightarrow> Limit option" where
  "find_limit p t = find (\<lambda>l. key l = p) (limits t)"

definition volume_at :: "Price \<Rightarrow> LimitTree \<Rightarrow> Volume" where
  "volume_at p t = (case find_limit p t of None \<Rightarrow> 0 | Some l \<Rightarrow> volume l)"

definition count_at :: "Price \<Rightarrow> LimitTree \<Rightarrow> Count" where
  "count_at p t = (case find_limit p t of None \<Rightarrow> 0 | Some l \<Rightarrow> count l)"

text \<open>A level is created with its first member.\<close>

definition new_limit :: "UID \<Rightarrow> Order \<Rightarrow> Limit" where
  "new_limit ptr order =
     \<lparr>key = price order, count = 1, volume = ucast (quantity order), queue = [ptr]\<rparr>"

text \<open>Appending to a level: the order becomes the tail, count and volume grow.\<close>

definition limit_append :: "UID \<Rightarrow> Order \<Rightarrow> Limit \<Rightarrow> Limit" where
  "limit_append ptr order l =
     l\<lparr>count := count l + 1, volume := volume l + ucast (quantity order),
       queue := queue l @ [ptr]\<rparr>"

text \<open>Splicing an order out of a level.\<close>

definition limit_remove :: "UID \<Rightarrow> Quantity \<Rightarrow> Limit \<Rightarrow> Limit" where
  "limit_remove ptr q l =
     l\<lparr>count := count l - 1, volume := volume l - ucast q, queue := remove1 ptr (queue l)\<rparr>"

text \<open>
  \<open>tree_limit\<close>: look up or create the level at the order's price, append the order,
  update the side totals.
\<close>

definition tree_limit :: "UID \<Rightarrow> Order \<Rightarrow> LimitTree \<Rightarrow> LimitTree" where
  "tree_limit ptr order t =
     t\<lparr>limits :=
         (case find_limit (price order) t of
            None \<Rightarrow> insort_key key (new_limit ptr order) (limits t)
          | Some _ \<Rightarrow>
              map (\<lambda>l. if key l = price order then limit_append ptr order l else l) (limits t)),
       tree_count := tree_count t + 1,
       tree_volume := tree_volume t + ucast (quantity order)\<rparr>"

text \<open>
  \<open>tree_remove k ptr q\<close>: splice the order \<open>ptr\<close> of quantity \<open>q\<close> out of the level
  keyed \<open>k\<close>; a level whose queue empties is erased from the index; the side totals
  shrink.
\<close>

definition tree_remove :: "Price \<Rightarrow> UID \<Rightarrow> Quantity \<Rightarrow> LimitTree \<Rightarrow> LimitTree" where
  "tree_remove k ptr q t =
     t\<lparr>limits :=
         filter (\<lambda>l. queue l \<noteq> [])
           (map (\<lambda>l. if key l = k then limit_remove ptr q l else l) (limits t)),
       tree_count := tree_count t - 1,
       tree_volume := tree_volume t - ucast q\<rparr>"

text \<open>\<^verbatim>\<open>order->limit->volume -= quantity\<close> on the level keyed \<open>k\<close>.\<close>

definition limit_volume_sub :: "Price \<Rightarrow> Quantity \<Rightarrow> LimitTree \<Rightarrow> LimitTree" where
  "limit_volume_sub k q t =
     t\<lparr>limits := map (\<lambda>l. if key l = k then l\<lparr>volume := volume l - ucast q\<rparr> else l) (limits t)\<rparr>"

text \<open>\<^verbatim>\<open>sells.volume -= quantity\<close>.\<close>

definition tree_volume_sub :: "Quantity \<Rightarrow> LimitTree \<Rightarrow> LimitTree" where
  "tree_volume_sub q t = t\<lparr>tree_volume := tree_volume t - ucast q\<rparr>"

text \<open>
  Whether the best resting price \<open>limit\<close> of a tree of side \<open>s\<close> is acceptable to a
  taker with price \<open>market\<close>; price 0 is the market-order sentinel.
\<close>

definition can_match :: "Side \<Rightarrow> Price \<Rightarrow> Price \<Rightarrow> bool" where
  "can_match s limit market =
     (market = 0 \<or> (case s of Buy \<Rightarrow> market \<le> limit | Sell \<Rightarrow> limit \<le> market))"

definition queued :: "LimitTree \<Rightarrow> UID list" where
  "queued t = concat (map queue (limits t))"

section \<open>The venue: book, accounts and connections\<close>

text \<open>
  The frames a connection sends that the claims are about. The side of a trade response
  is made from the side of an order of the book (\<^verbatim>\<open>bool_to_side\<close>), so it is one of the
  two values of \<^verbatim>\<open>LOB::Side\<close>.
\<close>

datatype Status = Accepted | Rejected

datatype Message =
    TradeResponse UID Price Quantity Quantity Side
  | ReplaceResponse UID UID Status

text \<open>
  \<^verbatim>\<open>class Connection\<close>: the bound account, the frames enqueued so far, each with the
  sequence number of its header, and the sequence counter.
\<close>

record Connection =
  conn_account :: "account_ref option"
  output_buffer :: "(SequenceNumber \<times> Message) list"
  conn_sequence :: SequenceNumber

text \<open>
  \<^verbatim>\<open>class LimitOrderBook\<close> (\<open>sells\<close>, \<open>buys\<close>, \<open>order_map\<close> for its member
  \<^verbatim>\<open>orders\<close>, \<open>sequence\<close>) together with the two heaps its pointers reach: the accounts
  of the \<^verbatim>\<open>Authorizer\<close> and the connections of the server. A plain \<^verbatim>\<open>LOB::Account\<close>
  is a \<open>SystemAccount\<close> without handler.
\<close>

record Exchange =
  sells :: LimitTree
  buys :: LimitTree
  order_map :: "UID \<rightharpoonup> Order"
  sequence :: UID
  accounts :: "account_ref \<Rightarrow> SystemAccount"
  connections :: "connection_ref \<Rightarrow> Connection"

definition tree :: "Side \<Rightarrow> Exchange \<Rightarrow> LimitTree" where
  "tree s w = (case s of Sell \<Rightarrow> sells w | Buy \<Rightarrow> buys w)"

definition set_tree :: "Side \<Rightarrow> LimitTree \<Rightarrow> Exchange \<Rightarrow> Exchange" where
  "set_tree s t w = (case s of Sell \<Rightarrow> w\<lparr>sells := t\<rparr> | Buy \<Rightarrow> w\<lparr>buys := t\<rparr>)"

definition update_account ::
  "account_ref \<Rightarrow> (SystemAccount \<Rightarrow> SystemAccount) \<Rightarrow> Exchange \<Rightarrow> Exchange" where
  "update_account a f w = w\<lparr>accounts := (accounts w)(a := f (accounts w a))\<rparr>"

text \<open>\<^verbatim>\<open>orders.erase(uid)\<close>, also the \<^verbatim>\<open>did_fill\<close> callback of the book.\<close>

definition erase :: "UID \<Rightarrow> Exchange \<Rightarrow> Exchange" where
  "erase u w = w\<lparr>order_map := (order_map w)(u := None)\<rparr>"

subsection \<open>\<^verbatim>\<open>Connection::send\<close> and \<^verbatim>\<open>Connection::trade\<close> (\<^verbatim>\<open>connection.hpp\<close>)\<close>

definition send :: "connection_ref \<Rightarrow> Message \<Rightarrow> Exchange \<Rightarrow> Exchange" where
  "send c m w =
     (let k = connections w c in
      w\<lparr>connections := (connections w)
          (c := k\<lparr>output_buffer := output_buffer k @ [(conn_sequence k, m)],
                  conn_sequence := conn_sequence k + 1\<rparr>)\<rparr>)"

definition trade ::
  "connection_ref \<Rightarrow> UID \<Rightarrow> Price \<Rightarrow> Quantity \<Rightarrow> Quantity \<Rightarrow> Side \<Rightarrow> Exchange \<Rightarrow> Exchange" where
  "trade c order_id p sz leaves_sz s w = send c (TradeResponse order_id p sz leaves_sz s) w"

subsection \<open>The overrides of \<^verbatim>\<open>SystemAccount\<close> (\<^verbatim>\<open>system_account.hpp\<close>)\<close>

text \<open>\<open>this\<close> is the account the callback is invoked on.\<close>

definition SystemAccount_limit_fill ::
  "account_ref \<Rightarrow> UID \<Rightarrow> Order \<Rightarrow> Order \<Rightarrow> Exchange \<Rightarrow> Exchange" where
  "SystemAccount_limit_fill this ptr limit market w =
     (let w1 = update_account this (limit_fill ptr limit market) w in
      case handler (accounts w1 this) of
        None \<Rightarrow> w1
      | Some h \<Rightarrow> trade h (uid limit) (price limit) (quantity limit) 0 (side limit) w1)"

definition SystemAccount_limit_partial ::
  "account_ref \<Rightarrow> Order \<Rightarrow> Order \<Rightarrow> Exchange \<Rightarrow> Exchange" where
  "SystemAccount_limit_partial this limit market w =
     (let w1 = update_account this (limit_partial limit market) w in
      case handler (accounts w1 this) of
        None \<Rightarrow> w1
      | Some h \<Rightarrow>
          trade h (uid limit) (price limit) (quantity market) (quantity limit) (side limit) w1)"

definition SystemAccount_market_fill ::
  "account_ref \<Rightarrow> Order \<Rightarrow> Order \<Rightarrow> Exchange \<Rightarrow> Exchange" where
  "SystemAccount_market_fill this limit market w =
     (let w1 = update_account this (market_fill limit market) w in
      case handler (accounts w1 this) of
        None \<Rightarrow> w1
      | Some h \<Rightarrow> trade h 0 (price limit) (quantity market) 0 (side market) w1)"

definition SystemAccount_market_partial ::
  "account_ref \<Rightarrow> Order \<Rightarrow> Order \<Rightarrow> Exchange \<Rightarrow> Exchange" where
  "SystemAccount_market_partial this limit market w =
     (let w1 = update_account this (market_partial limit market) w in
      case handler (accounts w1 this) of
        None \<Rightarrow> w1
      | Some h \<Rightarrow>
          trade h 0 (price limit) (quantity limit) (quantity market) (side market) w1)"

section \<open>Matching against one side\<close>

text \<open>
  Modelled from the spec: \<^verbatim>\<open>LimitTree<side>::limit\<close>, \<^verbatim>\<open>cancel\<close> and \<^verbatim>\<open>market\<close>
  of the missing \<^verbatim>\<open>limit_tree.hpp\<close>, after section 4.2 of the specification. The
  tests fix what the specification leaves open: \<^verbatim>\<open>tree.limit\<close> enters the order in its
  account's order set, and a taker that ends exactly on a resting order is notified with
  \<^verbatim>\<open>market_fill\<close> while its quantity is still the traded quantity.
\<close>

definition LimitTree_limit :: "Side \<Rightarrow> UID \<Rightarrow> Order \<Rightarrow> Exchange \<Rightarrow> Exchange" where
  "LimitTree_limit s ptr order w =
     update_account (account order) (account_limit ptr)
       (set_tree s (tree_limit ptr order (tree s w)) w)"

definition LimitTree_cancel :: "Side \<Rightarrow> UID \<Rightarrow> Order \<Rightarrow> Exchange \<Rightarrow> Exchange" where
  "LimitTree_cancel s ptr order w =
     update_account (account order) (account_cancel ptr)
       (set_tree s (tree_remove (price order) ptr (quantity order) (tree s w)) w)"

text \<open>
  The head of the best level with the order it points to. \<open>None\<close> when the side is
  empty; an empty level or a dangling pointer, which the C++ data structure never holds,
  also end the loop.
\<close>

definition head_of_best :: "Side \<Rightarrow> Exchange \<Rightarrow> (Limit \<times> UID \<times> Order) option" where
  "head_of_best s w =
     (case best s (tree s w) of
        None \<Rightarrow> None
      | Some b \<Rightarrow>
          (case queue b of
             [] \<Rightarrow> None
           | ptr # _ \<Rightarrow>
               (case order_map w ptr of None \<Rightarrow> None | Some m \<Rightarrow> Some (b, ptr, m))))"

text \<open>
  The resting order \<open>m\<close> is smaller than the taker: it trades entirely at its own price,
  the taker (already decremented) keeps a remainder.
\<close>

definition match_and_continue ::
  "Side \<Rightarrow> Limit \<Rightarrow> UID \<Rightarrow> Order \<Rightarrow> Order \<Rightarrow> Exchange \<Rightarrow> Exchange" where
  "match_and_continue s b ptr m taker w =
     (let w1 = SystemAccount_limit_fill (account m) ptr m taker w;
          w2 = SystemAccount_market_partial (account taker) m taker w1;
          w3 = set_tree s (tree_remove (key b) ptr (quantity m) (tree s w2)) w2
      in erase (uid m) w3)"

text \<open>The resting order and the taker have the same quantity: both are filled.\<close>

definition match_exact ::
  "Side \<Rightarrow> Limit \<Rightarrow> UID \<Rightarrow> Order \<Rightarrow> Order \<Rightarrow> Exchange \<Rightarrow> Exchange" where
  "match_exact s b ptr m taker w =
     (let w1 = SystemAccount_limit_fill (account m) ptr m taker w;
          w2 = SystemAccount_market_fill (account taker) m taker w1;
          w3 = set_tree s (tree_remove (key b) ptr (quantity m) (tree s w2)) w2
      in erase (uid m) w3)"

text \<open>
  The resting order has more than the taker wants: it stays at the head of its level
  with the remainder; level and side volume shrink by the traded quantity.
\<close>

definition match_partial ::
  "Side \<Rightarrow> Limit \<Rightarrow> UID \<Rightarrow> Order \<Rightarrow> Order \<Rightarrow> Exchange \<Rightarrow> Exchange" where
  "match_partial s b ptr m taker w =
     (let m' = m\<lparr>quantity := quantity m - quantity taker\<rparr>;
          w1 = w\<lparr>order_map := (order_map w)(ptr \<mapsto> m')\<rparr>;
          w2 = set_tree s
                 (tree_volume_sub (quantity taker)
                    (limit_volume_sub (key b) (quantity taker) (tree s w1))) w1;
          w3 = SystemAccount_limit_partial (account m) m' taker w2
      in SystemAccount_market_fill (account taker) m' taker w3)"

definition queue_size :: "LimitTree \<Rightarrow> nat" where
  "queue_size t = length (queued t)"

lemma tree_set_tree [simp]: "tree s (set_tree s t w) = t"
  by (cases s) (simp_all add: tree_def set_tree_def)

lemma tree_update_account [simp]: "tree s (update_account a f w) = tree s w"
  by (cases s) (simp_all add: tree_def update_account_def)

lemma tree_erase [simp]: "tree s (erase u w) = tree s w"
  by (cases s) (simp_all add: tree_def erase_def)

lemma tree_send [simp]: "tree s (send c m w) = tree s w"
  by (cases s) (simp_all add: tree_def send_def Let_def)

lemma tree_trade [simp]: "tree s (trade c i p q r d w) = tree s w"
  by (simp add: trade_def)

lemma tree_SystemAccount_limit_fill [simp]:
  "tree s (SystemAccount_limit_fill a ptr l m w) = tree s w"
  by (simp add: SystemAccount_limit_fill_def Let_def split: option.split)

lemma tree_SystemAccount_limit_partial [simp]:
  "tree s (SystemAccount_limit_partial a l m w) = tree s w"
  by (simp add: SystemAccount_limit_partial_def Let_def split: option.split)

lemma tree_SystemAccount_market_fill [simp]:
  "tree s (SystemAccount_market_fill a l m w) = tree s w"
  by (simp add: SystemAccount_market_fill_def Let_def split: option.split)

lemma tree_SystemAccount_market_partial [simp]:
  "tree s (SystemAccount_market_partial a l m w) = tree s w"
  by (simp add: SystemAccount_market_partial_def Let_def split: option.split)

lemma tree_match_and_continue:
  "tree s (match_and_continue s b ptr m taker w) = tree_remove (key b) ptr (quantity m) (tree s w)"
  by (simp add: match_and_continue_def Let_def)

lemma best_in_limits: "best s t = Some b \<Longrightarrow> b \<in> set (limits t)"
  by (cases s; cases "limits t") (auto simp: best_def split: if_splits)

lemma length_queues_filter:
  "length (concat (map queue (filter P ls))) \<le> length (concat (map queue ls))"
  by (induction ls) auto

lemma length_queues_remove:
  "length (concat (map (\<lambda>l. queue (if key l = k then limit_remove ptr q l else l)) ls))
     \<le> length (concat (map queue ls))"
proof (induction ls)
  case Nil
  then show ?case by simp
next
  case (Cons l ls)
  have "length (remove1 ptr (queue l)) \<le> length (queue l)"
    by (simp add: length_remove1)
  with Cons show ?case by (simp add: limit_remove_def)
qed

lemma length_queues_remove_less:
  "b \<in> set ls \<Longrightarrow> ptr \<in> set (queue b) \<Longrightarrow>
   length (concat (map (\<lambda>l. queue (if key l = key b then limit_remove ptr q l else l)) ls))
     < length (concat (map queue ls))"
proof (induction ls)
  case Nil
  then show ?case by simp
next
  case (Cons l ls)
  let ?f = "\<lambda>l. queue (if key l = key b then limit_remove ptr q l else l)"
  have rest: "length (concat (map ?f ls)) \<le> length (concat (map queue ls))"
    by (rule length_queues_remove)
  have hd_le: "length (?f l) \<le> length (queue l)"
    by (simp add: limit_remove_def length_remove1)
  show ?case
  proof (cases "l = b")
    case True
    with Cons.prems have "ptr \<in> set (queue l)" by simp
    moreover from this have "0 < length (queue l)"
      by (rule length_pos_if_in_set)
    ultimately have "length (remove1 ptr (queue l)) < length (queue l)"
      by (simp add: length_remove1)
    with True have "length (?f l) < length (queue l)"
      by (simp add: limit_remove_def)
    with rest show ?thesis by simp
  next
    case False
    with Cons have "length (concat (map ?f ls)) < length (concat (map queue ls))"
      by simp
    with hd_le show ?thesis by simp
  qed
qed

lemma queue_size_tree_remove:
  assumes "b \<in> set (limits t)" and "ptr \<in> set (queue b)"
  shows "queue_size (tree_remove (key b) ptr q t) < queue_size t"
proof -
  let ?f = "\<lambda>l. if key l = key b then limit_remove ptr q l else l"
  have "queue_size (tree_remove (key b) ptr q t)
      = length (concat (map queue (filter (\<lambda>l. queue l \<noteq> []) (map ?f (limits t)))))"
    by (simp add: queue_size_def queued_def tree_remove_def)
  also have "\<dots> \<le> length (concat (map queue (map ?f (limits t))))"
    by (rule length_queues_filter)
  also have "\<dots> = length (concat (map (\<lambda>l. queue (?f l)) (limits t)))"
    by (simp add: comp_def)
  also have "\<dots> < length (concat (map queue (limits t)))"
    using assms by (rule length_queues_remove_less)
  finally show ?thesis by (simp add: queue_size_def queued_def)
qed

lemma head_of_best_Some:
  "head_of_best s w = Some (b, ptr, m) \<Longrightarrow>
     b \<in> set (limits (tree s w)) \<and> ptr \<in> set (queue b) \<and> order_map w ptr = Some m
     \<and> best s (tree s w) = Some b \<and> (\<exists>rest. queue b = ptr # rest)"
  by (auto simp: head_of_best_def best_in_limits split: option.splits list.splits)

text \<open>
  The loop of \<^verbatim>\<open>market\<close> on the tree of side \<open>s\<close>: the taker is passed and returned
  by value (its remaining quantity is what the caller reads afterwards).
\<close>

function LimitTree_market :: "Side \<Rightarrow> Order \<Rightarrow> Exchange \<Rightarrow> Order \<times> Exchange" where
  "LimitTree_market s taker w =
     (if quantity taker = 0 then (taker, w)
      else
        (case head_of_best s w of
           None \<Rightarrow> (taker, w)
         | Some (b, ptr, m) \<Rightarrow>
             if \<not> can_match s (key b) (price taker) then (taker, w)
             else if quantity m < quantity taker then
               LimitTree_market s (taker\<lparr>quantity := quantity taker - quantity m\<rparr>)
                 (match_and_continue s b ptr m (taker\<lparr>quantity := quantity taker - quantity m\<rparr>) w)
             else if quantity m = quantity taker then
               (taker\<lparr>quantity := 0\<rparr>, match_exact s b ptr m taker w)
             else (taker\<lparr>quantity := 0\<rparr>, match_partial s b ptr m taker w)))"
  by pat_completeness auto
termination
proof (relation "measure (\<lambda>(s, taker, w). queue_size (tree s w))")
  show "wf (measure (\<lambda>(s, taker, w). queue_size (tree s w)))" by simp
next
  fix s :: Side and taker :: Order and w :: Exchange and x2 b y ptr m
  assume "head_of_best s w = Some x2" and "(b, y) = x2" and "(ptr, m) = y"
  then have "head_of_best s w = Some (b, ptr, m)" by simp
  then have "b \<in> set (limits (tree s w))" "ptr \<in> set (queue b)"
    using head_of_best_Some by blast+
  then show "((s, taker\<lparr>quantity := quantity taker - quantity m\<rparr>,
               match_and_continue s b ptr m (taker\<lparr>quantity := quantity taker - quantity m\<rparr>) w),
              s, taker, w) \<in> measure (\<lambda>(s, taker, w). queue_size (tree s w))"
    by (simp add: tree_match_and_continue queue_size_tree_remove)
qed

declare LimitTree_market.simps [simp del]

section \<open>The limit order book (\<^verbatim>\<open>limit_order_book.hpp\<close>)\<close>

text \<open>
  \<^verbatim>\<open>orders.emplace(sequence, ...)\<close>: nothing is stored when the key is present.
  \<open>at_or\<close> is the element \<^verbatim>\<open>orders.at(sequence)\<close> refers to afterwards.
\<close>

definition emplace :: "UID \<Rightarrow> Order \<Rightarrow> (UID \<rightharpoonup> Order) \<Rightarrow> (UID \<rightharpoonup> Order)" where
  "emplace k v m = (case m k of None \<Rightarrow> m(k \<mapsto> v) | Some _ \<Rightarrow> m)"

definition at_or :: "(UID \<rightharpoonup> Order) \<Rightarrow> UID \<Rightarrow> Order \<Rightarrow> Order" where
  "at_or m k v = (case m k of None \<Rightarrow> v | Some old \<Rightarrow> old)"

definition crosses :: "Side \<Rightarrow> Price \<Rightarrow> Exchange \<Rightarrow> bool" where
  "crosses s p w =
     (case s of
        Sell \<Rightarrow> (case best Buy (buys w) of None \<Rightarrow> False | Some b \<Rightarrow> p \<le> key b)
      | Buy \<Rightarrow> (case best Sell (sells w) of None \<Rightarrow> False | Some b \<Rightarrow> key b \<le> p))"

text \<open>
  \<^verbatim>\<open>limit_sell\<close> and \<^verbatim>\<open>limit_buy\<close>. The taker lives in the uid map while it
  matches; the loop works on it through the pointer, which is the write-back of the
  returned taker under its key. The counter moves only on the path that rests the order.
\<close>

definition limit_sell :: "account_ref \<Rightarrow> Quantity \<Rightarrow> Price \<Rightarrow> Exchange \<Rightarrow> UID \<times> Exchange" where
  "limit_sell a q p w =
     (let sq = sequence w;
          new = \<lparr>uid = sq, side = Sell, quantity = q, price = p, account = a\<rparr>;
          order = at_or (order_map w) sq new;
          w1 = w\<lparr>order_map := emplace sq new (order_map w)\<rparr>
      in if crosses Sell p w1 then
           (let (order', w2) = LimitTree_market Buy order w1;
                w3 = w2\<lparr>order_map := (order_map w2)(sq \<mapsto> order')\<rparr>
            in if quantity order' = 0 then (0, erase sq w3)
               else (sq, (LimitTree_limit Sell sq order' w3)\<lparr>sequence := sq + 1\<rparr>))
         else (sq, (LimitTree_limit Sell sq order w1)\<lparr>sequence := sq + 1\<rparr>))"

definition limit_buy :: "account_ref \<Rightarrow> Quantity \<Rightarrow> Price \<Rightarrow> Exchange \<Rightarrow> UID \<times> Exchange" where
  "limit_buy a q p w =
     (let sq = sequence w;
          new = \<lparr>uid = sq, side = Buy, quantity = q, price = p, account = a\<rparr>;
          order = at_or (order_map w) sq new;
          w1 = w\<lparr>order_map := emplace sq new (order_map w)\<rparr>
      in if crosses Buy p w1 then
           (let (order', w2) = LimitTree_market Sell order w1;
                w3 = w2\<lparr>order_map := (order_map w2)(sq \<mapsto> order')\<rparr>
            in if quantity order' = 0 then (0, erase sq w3)
               else (sq, (LimitTree_limit Buy sq order' w3)\<lparr>sequence := sq + 1\<rparr>))
         else (sq, (LimitTree_limit Buy sq order w1)\<lparr>sequence := sq + 1\<rparr>))"

definition limit :: "account_ref \<Rightarrow> Side \<Rightarrow> Quantity \<Rightarrow> Price \<Rightarrow> Exchange \<Rightarrow> UID \<times> Exchange" where
  "limit a s q p w = (case s of Sell \<Rightarrow> limit_sell a q p w | Buy \<Rightarrow> limit_buy a q p w)"

text \<open>
  Modelled from the spec: \<^verbatim>\<open>LimitTree::clear\<close> of the missing \<^verbatim>\<open>limit_tree.hpp\<close>
  leaves the empty index (section 4.3 of the specification: \<^verbatim>\<open>clear\<close> erases every
  order, level and tree node). \<^verbatim>\<open>LimitOrderBook::clear\<close> clears both sides and the
  uid map and sets the counter back to 1.
\<close>

definition clear :: "Exchange \<Rightarrow> Exchange" where
  "clear w = w\<lparr>sells := empty_tree, buys := empty_tree, order_map := Map.empty, sequence := 1\<rparr>"

definition has :: "UID \<Rightarrow> Exchange \<Rightarrow> bool" where
  "has order_id w = (order_map w order_id \<noteq> None)"

text \<open>
  \<^verbatim>\<open>orders.at(order_id)\<close> throws \<^verbatim>\<open>std::out_of_range\<close> for an unknown uid;
  \<^verbatim>\<open>reduce\<close> throws a message holding the two quantities.
\<close>

datatype error = OutOfRange | TryingToRemove Quantity Quantity

definition cancel :: "UID \<Rightarrow> Exchange \<Rightarrow> error + Exchange" where
  "cancel order_id w =
     (case order_map w order_id of
        None \<Rightarrow> Inl OutOfRange
      | Some order \<Rightarrow> Inr (erase order_id (LimitTree_cancel (side order) order_id order w)))"

definition reduce :: "UID \<Rightarrow> Quantity \<Rightarrow> Exchange \<Rightarrow> error + Exchange" where
  "reduce order_id q w =
     (case order_map w order_id of
        None \<Rightarrow> Inl OutOfRange
      | Some order \<Rightarrow>
          if quantity order < q then Inl (TryingToRemove q (quantity order))
          else
            (let order' = order\<lparr>quantity := quantity order - q\<rparr>;
                 s = side order;
                 w1 = w\<lparr>order_map := (order_map w)(order_id \<mapsto> order')\<rparr>;
                 w2 = set_tree s (limit_volume_sub (price order) q (tree s w1)) w1;
                 w3 = set_tree s (tree_volume_sub q (tree s w2)) w2
             in if quantity order' = 0
                then Inr (erase order_id (LimitTree_cancel s order_id order' w3))
                else Inr w3))"

definition market_sell :: "account_ref \<Rightarrow> Quantity \<Rightarrow> Exchange \<Rightarrow> Exchange" where
  "market_sell a q w =
     snd (LimitTree_market Buy
            \<lparr>uid = sequence w, side = Sell, quantity = q, price = 0, account = a\<rparr> w)"

definition market_buy :: "account_ref \<Rightarrow> Quantity \<Rightarrow> Exchange \<Rightarrow> Exchange" where
  "market_buy a q w =
     snd (LimitTree_market Sell
            \<lparr>uid = sequence w, side = Buy, quantity = q, price = 0, account = a\<rparr> w)"

definition market :: "account_ref \<Rightarrow> Side \<Rightarrow> Quantity \<Rightarrow> Exchange \<Rightarrow> Exchange" where
  "market a s q w = (case s of Sell \<Rightarrow> market_sell a q w | Buy \<Rightarrow> market_buy a q w)"

definition best_sell :: "Exchange \<Rightarrow> Price" where
  "best_sell w = (case best Sell (sells w) of None \<Rightarrow> 0 | Some b \<Rightarrow> key b)"

definition best_buy :: "Exchange \<Rightarrow> Price" where
  "best_buy w = (case best Buy (buys w) of None \<Rightarrow> 0 | Some b \<Rightarrow> key b)"

definition best_price :: "Side \<Rightarrow> Exchange \<Rightarrow> Price" where
  "best_price s w = (case s of Sell \<Rightarrow> best_sell w | Buy \<Rightarrow> best_buy w)"

definition volume_sell :: "Exchange \<Rightarrow> Volume" where
  "volume_sell w = tree_volume (sells w)"

definition volume_buy :: "Exchange \<Rightarrow> Volume" where
  "volume_buy w = tree_volume (buys w)"

definition count_sell :: "Exchange \<Rightarrow> Count" where
  "count_sell w = tree_count (sells w)"

definition count_buy :: "Exchange \<Rightarrow> Count" where
  "count_buy w = tree_count (buys w)"

text \<open>
  \<^verbatim>\<open>does_cross\<close>: the spread is a 32-bit \<^verbatim>\<open>Quantity\<close> widened to the price type;
  \<^verbatim>\<open>std::numeric_limits<Price>::max()\<close> is \<open>- 1\<close> as a 64-bit word.
\<close>

definition does_cross :: "Exchange \<Rightarrow> Exchange \<Rightarrow> Quantity \<Rightarrow> bool" where
  "does_cross this other spread =
     (if best_sell this = 0 then False
      else if best_sell this > (- 1) - ucast spread then False
      else if best_sell this + ucast spread < best_buy other then True
      else False)"

section \<open>\<^verbatim>\<open>Connection::handle(ReplaceRequest)\<close> (\<^verbatim>\<open>connection.hpp\<close>)\<close>




text \<open>A new book with its uid counter at 1, over given accounts and connections.\<close>

definition new_book ::
  "(account_ref \<Rightarrow> SystemAccount) \<Rightarrow> (connection_ref \<Rightarrow> Connection) \<Rightarrow> Exchange" where
  "new_book accts conns =
     \<lparr>sells = empty_tree, buys = empty_tree, order_map = Map.empty, sequence = 1,
      accounts = accts, connections = conns\<rparr>"

definition new_account :: "string \<Rightarrow> string \<Rightarrow> connection_ref option \<Rightarrow> SystemAccount" where
  "new_account un pw h =
     \<lparr>shares = 0, capital = 0, orders = {}, username = un, password = pw, handler = h,
      is_connected = (h \<noteq> None)\<rparr>"

definition new_connection :: "account_ref option \<Rightarrow> Connection" where
  "new_connection a = \<lparr>conn_account = a, output_buffer = [], conn_sequence = 0\<rparr>"

text \<open>Accounts without session and connections without login, for concrete books.\<close>

definition plain_accounts :: "account_ref \<Rightarrow> SystemAccount" where
  "plain_accounts a = new_account [] [] None"

definition no_connections :: "connection_ref \<Rightarrow> Connection" where
  "no_connections c = new_connection None"

text \<open>Accounts bound to a session: account \<open>n\<close> is logged in on connection \<open>n\<close>.\<close>

definition session_accounts :: "account_ref \<Rightarrow> SystemAccount" where
  "session_accounts a = new_account [] [] (Some a)"

definition session_connections :: "connection_ref \<Rightarrow> Connection" where
  "session_connections c = new_connection (Some c)"

text \<open>A book of sessions holding one buy order of account 1: 10 shares at price 100.\<close>

definition resting_buy :: Exchange where
  "resting_buy = snd (limit_buy 1 10 100 (new_book session_accounts session_connections))"

section \<open>Totals over accounts and invariants of the book\<close>

text \<open>
  The sum of the share balances and of the capital balances over a set of accounts, in
  the 64-bit arithmetic of the balances.
\<close>

definition total_shares :: "account_ref set \<Rightarrow> Exchange \<Rightarrow> Shares" where
  "total_shares A w = (\<Sum>a\<in>A. shares (accounts w a))"

definition total_capital :: "account_ref set \<Rightarrow> Exchange \<Rightarrow> Capital" where
  "total_capital A w = (\<Sum>a\<in>A. capital (accounts w a))"

text \<open>
  The same sums with every balance read as the signed integer it stands for
  (\<^verbatim>\<open>int64_t\<close>).
\<close>

definition exact_shares :: "account_ref set \<Rightarrow> Exchange \<Rightarrow> int" where
  "exact_shares A w = (\<Sum>a\<in>A. sint (shares (accounts w a)))"

definition exact_capital :: "account_ref set \<Rightarrow> Exchange \<Rightarrow> int" where
  "exact_capital A w = (\<Sum>a\<in>A. sint (capital (accounts w a)))"

definition signed_by :: "Side \<Rightarrow> 64 word \<Rightarrow> 64 word" where
  "signed_by s x = (case s of Sell \<Rightarrow> - x | Buy \<Rightarrow> x)"

text \<open>
  Every order of the uid map belongs to an account of \<open>A\<close>; every pointer queued on
  side \<open>s\<close> points to an order of side \<open>s\<close>.
\<close>

definition accounts_within :: "account_ref set \<Rightarrow> Exchange \<Rightarrow> bool" where
  "accounts_within A w \<longleftrightarrow> (\<forall>u ord. order_map w u = Some ord \<longrightarrow> account ord \<in> A)"

definition sides_agree :: "Side \<Rightarrow> Exchange \<Rightarrow> bool" where
  "sides_agree s w \<longleftrightarrow>
     (\<forall>u \<in> set (queued (tree s w)). \<forall>ord. order_map w u = Some ord \<longrightarrow> side ord = s)"

text \<open>
  What matching may do to the book: the counter stays, entries of the uid map disappear
  or change their quantity only, and no pointer enters a queue.
\<close>

definition evolves :: "Exchange \<Rightarrow> Exchange \<Rightarrow> bool" where
  "evolves w w' \<longleftrightarrow>
     sequence w' = sequence w
     \<and> (\<forall>u ord'. order_map w' u = Some ord' \<longrightarrow>
           (\<exists>ord. order_map w u = Some ord \<and> side ord' = side ord \<and> account ord' = account ord))
     \<and> (\<forall>s. set (queued (tree s w')) \<subseteq> set (queued (tree s w)))"

text \<open>
  The uids of the map and of the queues lie below the counter \<^verbatim>\<open>sequence\<close>; with the
  two properties above this is the invariant of the book.
\<close>

definition map_below :: "UID \<Rightarrow> Exchange \<Rightarrow> bool" where
  "map_below n w \<longleftrightarrow> (\<forall>u ord. order_map w u = Some ord \<longrightarrow> u < n)"

definition queued_below :: "UID \<Rightarrow> Exchange \<Rightarrow> bool" where
  "queued_below n w \<longleftrightarrow> (\<forall>s. \<forall>u \<in> set (queued (tree s w)). u < n)"

definition book_inv :: "account_ref set \<Rightarrow> Exchange \<Rightarrow> bool" where
  "book_inv A w \<longleftrightarrow>
     accounts_within A w \<and> sides_agree Sell w \<and> sides_agree Buy w
     \<and> map_below (sequence w) w \<and> queued_below (sequence w) w"

text \<open>
  \<^verbatim>\<open>limit_sell\<close> and \<^verbatim>\<open>limit_buy\<close> differ in the side only; \<open>limit_on\<close> is their common
  text with the side as a parameter (\<open>limit_as_limit_on\<close> below).
\<close>

fun opposite :: "Side \<Rightarrow> Side" where
  "opposite Sell = Buy"
| "opposite Buy = Sell"

definition limit_on :: "Side \<Rightarrow> account_ref \<Rightarrow> Quantity \<Rightarrow> Price \<Rightarrow> Exchange \<Rightarrow> UID \<times> Exchange" where
  "limit_on s a q p w =
     (let sq = sequence w;
          new = \<lparr>uid = sq, side = s, quantity = q, price = p, account = a\<rparr>;
          order = at_or (order_map w) sq new;
          w1 = w\<lparr>order_map := emplace sq new (order_map w)\<rparr>
      in if crosses s p w1 then
           (let (order', w2) = LimitTree_market (opposite s) order w1;
                w3 = w2\<lparr>order_map := (order_map w2)(sq \<mapsto> order')\<rparr>
            in if quantity order' = 0 then (0, erase sq w3)
               else (sq, (LimitTree_limit s sq order' w3)\<lparr>sequence := sq + 1\<rparr>))
         else (sq, (LimitTree_limit s sq order w1)\<lparr>sequence := sq + 1\<rparr>))"

text \<open>
  A taker of account 2 that sells 4 at the price 90, below the price 100 of the resting
  buy order of \<open>resting_buy\<close>.
\<close>

definition seller_at_90 :: Order where
  "seller_at_90 = \<lparr>uid = 2, side = Sell, quantity = 4, price = 90, account = 2\<rparr>"

text \<open>
  The quantity a limit order has left when it has entered: what the matching against the
  opposite side leaves of the order when it crosses, its own quantity when it does not.
  The order is fully consumed on entry when it crosses and nothing is left.
\<close>

definition remaining_on_entry ::
  "account_ref \<Rightarrow> Side \<Rightarrow> Quantity \<Rightarrow> Price \<Rightarrow> Exchange \<Rightarrow> Quantity" where
  "remaining_on_entry a s q p w =
     (let sq = sequence w;
          new = \<lparr>uid = sq, side = s, quantity = q, price = p, account = a\<rparr>;
          order = at_or (order_map w) sq new;
          w1 = w\<lparr>order_map := emplace sq new (order_map w)\<rparr>
      in if crosses s p w then quantity (fst (LimitTree_market (opposite s) order w1))
         else quantity order)"

definition consumed_on_entry ::
  "account_ref \<Rightarrow> Side \<Rightarrow> Quantity \<Rightarrow> Price \<Rightarrow> Exchange \<Rightarrow> bool" where
  "consumed_on_entry a s q p w \<longleftrightarrow> crosses s p w \<and> remaining_on_entry a s q p w = 0"

text \<open>
  A sequence of calls of \<^verbatim>\<open>limit\<close>, \<^verbatim>\<open>market\<close>, \<^verbatim>\<open>cancel\<close> and \<^verbatim>\<open>reduce\<close> on
  the book, and the uids that the calls of \<^verbatim>\<open>limit\<close> return. \<^verbatim>\<open>cancel\<close> and
  \<^verbatim>\<open>reduce\<close> throw before they write anything: after a call that throws, the sequence
  goes on with the book as it was.
\<close>

datatype Request =
    LimitRequest account_ref Side Quantity Price
  | MarketRequest account_ref Side Quantity
  | CancelRequest UID
  | ReduceRequest UID Quantity

fun request_accounts :: "Request \<Rightarrow> account_ref set" where
  "request_accounts (LimitRequest a s q p) = {a}"
| "request_accounts (MarketRequest a s q) = {a}"
| "request_accounts (CancelRequest order_id) = {}"
| "request_accounts (ReduceRequest order_id q) = {}"

fun run :: "Request list \<Rightarrow> Exchange \<Rightarrow> UID list \<times> Exchange" where
  "run [] w = ([], w)"
| "run (LimitRequest a s q p # rs) w =
     (let (u, w1) = limit a s q p w; (us, w2) = run rs w1 in (u # us, w2))"
| "run (MarketRequest a s q # rs) w = run rs (market a s q w)"
| "run (CancelRequest order_id # rs) w =
     (case cancel order_id w of Inl e \<Rightarrow> run rs w | Inr w1 \<Rightarrow> run rs w1)"
| "run (ReduceRequest order_id q # rs) w =
     (case reduce order_id q w of Inl e \<Rightarrow> run rs w | Inr w1 \<Rightarrow> run rs w1)"

text \<open>Request sequences for concrete runs.\<close>

definition wrapping_requests :: "Request list" where
  "wrapping_requests = [LimitRequest 1 Sell 2 (2 ^ 63), MarketRequest 2 Buy 1]"

definition three_requests :: "Request list" where
  "three_requests =
     [LimitRequest 1 Buy 20 100, LimitRequest 2 Buy 20 101, LimitRequest 3 Sell 40 101,
      MarketRequest 1 Sell 5, LimitRequest 2 Sell 20 100, ReduceRequest 3 5, CancelRequest 3]"

definition consumed_requests :: "Request list" where
  "consumed_requests =
     [LimitRequest 1 Buy 10 100, LimitRequest 2 Sell 10 100, LimitRequest 1 Buy 5 100]"

text \<open>
  Requests on the book \<open>resting_buy\<close>: a sell that the resting buy order consumes, a
  buy that rests, its cancel, a reduce of an unknown uid (it throws), and another buy.
\<close>

definition requests_with_cancel :: "Request list" where
  "requests_with_cancel =
     [LimitRequest 2 Sell 10 100, LimitRequest 1 Buy 5 100, CancelRequest 2,
      ReduceRequest 7 1, LimitRequest 1 Buy 5 100]"


definition named_accounts :: "account_ref \<Rightarrow> SystemAccount" where
  "named_accounts a = new_account (replicate a CHR ''u'') [] (Some a)"

definition two_resting :: Exchange where
  "two_resting =
     snd (limit_buy 2 7 99 (snd (limit_buy 1 10 100 (new_book named_accounts session_connections))))"








text \<open>
  An order rests in the book: it is in the uid map and its pointer is queued, once, at
  the level of its price on its side.
\<close>

definition resting_in :: "Exchange \<Rightarrow> UID \<Rightarrow> Order \<Rightarrow> bool" where
  "resting_in w order_id ord \<longleftrightarrow>
     order_map w order_id = Some ord
     \<and> distinct (queued (tree (side ord) w))
     \<and> (\<exists>l. find_limit (price ord) (tree (side ord) w) = Some l \<and> order_id \<in> set (queue l))"

text \<open>No level of the index has an empty queue (a level is erased with its last order).\<close>

definition levels_nonempty :: "LimitTree \<Rightarrow> bool" where
  "levels_nonempty t \<longleftrightarrow> (\<forall>l \<in> set (limits t). queue l \<noteq> [])"

text \<open>The first order of \<open>two_resting\<close>, and a third one submitted to it.\<close>

definition order_1 :: Order where
  "order_1 = \<lparr>uid = 1, side = Buy, quantity = 10, price = 100, account = 1\<rparr>"

definition order_3 :: Order where
  "order_3 = \<lparr>uid = 3, side = Buy, quantity = 4, price = 100, account = 2\<rparr>"

section \<open>The market-data subscriber\<close>

subsection \<open>The mirror book (\<^verbatim>\<open>data_feed/limit_order_book\<close>)\<close>

text \<open>
  \<^verbatim>\<open>DataFeed::LOB::Order\<close> has no account, and the mirror book takes the uid from the
  wire instead of a counter.

  Modelled from the spec: \<^verbatim>\<open>data_feed/limit_order_book/limit_tree.hpp\<close> is not among
  the sources either. The mirror book uses the price index of the section above, and its
  matching loop \<open>mirror_market\<close> follows section 4.2 of the specification as the loop of
  the order-entry book does, with \<^verbatim>\<open>orders.erase(uid)\<close> of \<^verbatim>\<open>limit_order_book.hpp\<close> as
  the only callback. \<^verbatim>\<open>limit_sell\<close>, \<^verbatim>\<open>limit_buy\<close>, \<^verbatim>\<open>cancel\<close>, \<^verbatim>\<open>reduce\<close> and
  \<^verbatim>\<open>clear\<close> are those of \<^verbatim>\<open>data_feed/limit_order_book/limit_order_book.hpp\<close>.
\<close>

record MirrorOrder =
  mirror_uid :: UID
  mirror_side :: Side
  mirror_quantity :: Quantity
  mirror_price :: Price

record Mirror =
  mirror_sells :: LimitTree
  mirror_buys :: LimitTree
  mirror_orders :: "UID \<rightharpoonup> MirrorOrder"

text \<open>The price index reads the price and the quantity of an order only.\<close>

definition as_order :: "MirrorOrder \<Rightarrow> Order" where
  "as_order m =
     \<lparr>uid = mirror_uid m, side = mirror_side m, quantity = mirror_quantity m,
      price = mirror_price m, account = 0\<rparr>"

definition mirror_tree :: "Side \<Rightarrow> Mirror \<Rightarrow> LimitTree" where
  "mirror_tree s b = (case s of Sell \<Rightarrow> mirror_sells b | Buy \<Rightarrow> mirror_buys b)"

definition set_mirror_tree :: "Side \<Rightarrow> LimitTree \<Rightarrow> Mirror \<Rightarrow> Mirror" where
  "set_mirror_tree s t b = (case s of Sell \<Rightarrow> b\<lparr>mirror_sells := t\<rparr> | Buy \<Rightarrow> b\<lparr>mirror_buys := t\<rparr>)"

definition mirror_head_of_best :: "Side \<Rightarrow> Mirror \<Rightarrow> (Limit \<times> UID \<times> MirrorOrder) option" where
  "mirror_head_of_best s b =
     (case best s (mirror_tree s b) of
        None \<Rightarrow> None
      | Some l \<Rightarrow>
          (case queue l of
             [] \<Rightarrow> None
           | ptr # _ \<Rightarrow>
               (case mirror_orders b ptr of None \<Rightarrow> None | Some m \<Rightarrow> Some (l, ptr, m))))"

definition mirror_fill :: "Side \<Rightarrow> Limit \<Rightarrow> UID \<Rightarrow> MirrorOrder \<Rightarrow> Mirror \<Rightarrow> Mirror" where
  "mirror_fill s l ptr m b =
     (let b1 = set_mirror_tree s (tree_remove (key l) ptr (mirror_quantity m) (mirror_tree s b)) b
      in b1\<lparr>mirror_orders := (mirror_orders b1)(mirror_uid m := None)\<rparr>)"

definition mirror_partial ::
  "Side \<Rightarrow> Limit \<Rightarrow> UID \<Rightarrow> MirrorOrder \<Rightarrow> Quantity \<Rightarrow> Mirror \<Rightarrow> Mirror" where
  "mirror_partial s l ptr m q b =
     (let b1 = b\<lparr>mirror_orders :=
                  (mirror_orders b)(ptr \<mapsto> m\<lparr>mirror_quantity := mirror_quantity m - q\<rparr>)\<rparr>
      in set_mirror_tree s
           (tree_volume_sub q (limit_volume_sub (key l) q (mirror_tree s b1))) b1)"

lemma mirror_tree_set [simp]: "mirror_tree s (set_mirror_tree s t b) = t"
  by (cases s) (simp_all add: mirror_tree_def set_mirror_tree_def)

lemma mirror_tree_orders [simp]: "mirror_tree s (b\<lparr>mirror_orders := om\<rparr>) = mirror_tree s b"
  by (cases s) (simp_all add: mirror_tree_def)

lemma mirror_head_of_best_Some:
  "mirror_head_of_best s b = Some (l, ptr, m) \<Longrightarrow>
     l \<in> set (limits (mirror_tree s b)) \<and> ptr \<in> set (queue l)"
  by (auto simp: mirror_head_of_best_def best_in_limits split: option.splits list.splits)

text \<open>
  The taker of the mirror book is the entry of the uid map that \<^verbatim>\<open>limit_sell\<close> and
  \<^verbatim>\<open>limit_buy\<close> pass by address, so the loop reads and writes it through the map. A uid
  from the wire may already be in the map; then the taker is the order already resting,
  and a fill of that very order erases the taker: the loop stops there.
\<close>

definition set_mirror_quantity :: "UID \<Rightarrow> Quantity \<Rightarrow> Mirror \<Rightarrow> Mirror" where
  "set_mirror_quantity ptr q b =
     (case mirror_orders b ptr of
        None \<Rightarrow> b
      | Some m \<Rightarrow> b\<lparr>mirror_orders := (mirror_orders b)(ptr \<mapsto> m\<lparr>mirror_quantity := q\<rparr>)\<rparr>)"

lemma mirror_tree_set_quantity [simp]:
  "mirror_tree s (set_mirror_quantity ptr q b) = mirror_tree s b"
  by (simp add: set_mirror_quantity_def split: option.splits)

function mirror_market :: "Side \<Rightarrow> UID \<Rightarrow> Mirror \<Rightarrow> Mirror" where
  "mirror_market s order b =
     (case mirror_orders b order of
        None \<Rightarrow> b
      | Some taker \<Rightarrow>
          if mirror_quantity taker = 0 then b
          else
            (case mirror_head_of_best s b of
               None \<Rightarrow> b
             | Some (l, ptr, m) \<Rightarrow>
                 if \<not> can_match s (key l) (mirror_price taker) then b
                 else if mirror_quantity m < mirror_quantity taker then
                   mirror_market s order
                     (set_mirror_quantity order (mirror_quantity taker - mirror_quantity m)
                        (mirror_fill s l ptr m b))
                 else if mirror_quantity m = mirror_quantity taker then
                   set_mirror_quantity order 0 (mirror_fill s l ptr m b)
                 else
                   set_mirror_quantity order 0
                     (mirror_partial s l ptr m (mirror_quantity taker) b)))"
  by pat_completeness auto
termination
proof (relation "measure (\<lambda>(s, order, b). queue_size (mirror_tree s b))")
  show "wf (measure (\<lambda>(s, order, b). queue_size (mirror_tree s b)))" by simp
next
  fix s :: Side and order :: UID and b :: Mirror and taker x2 l y ptr m
  assume "mirror_head_of_best s b = Some x2" and "(l, y) = x2" and "(ptr, m) = y"
  then have "mirror_head_of_best s b = Some (l, ptr, m)" by simp
  then have "l \<in> set (limits (mirror_tree s b))" "ptr \<in> set (queue l)"
    using mirror_head_of_best_Some by blast+
  then show "((s, order,
               set_mirror_quantity order (mirror_quantity taker - mirror_quantity m)
                 (mirror_fill s l ptr m b)), s, order, b)
             \<in> measure (\<lambda>(s, order, b). queue_size (mirror_tree s b))"
    by (simp add: mirror_fill_def Let_def queue_size_tree_remove)
qed

declare mirror_market.simps [simp del]

text \<open>
  \<^verbatim>\<open>limit_sell\<close>, \<^verbatim>\<open>limit_buy\<close>: \<^verbatim>\<open>emplace\<close> leaves an entry already under the uid as it
  is; \<^verbatim>\<open>orders.at\<close> after the matching throws when the entry is gone.
\<close>

definition mirror_emplace :: "UID \<Rightarrow> MirrorOrder \<Rightarrow> Mirror \<Rightarrow> Mirror" where
  "mirror_emplace order_id new b =
     (case mirror_orders b order_id of
        None \<Rightarrow> b\<lparr>mirror_orders := (mirror_orders b)(order_id \<mapsto> new)\<rparr>
      | Some _ \<Rightarrow> b)"

definition mirror_erase :: "UID \<Rightarrow> Mirror \<Rightarrow> Mirror" where
  "mirror_erase order_id b = b\<lparr>mirror_orders := (mirror_orders b)(order_id := None)\<rparr>"

definition mirror_crosses :: "Side \<Rightarrow> Price \<Rightarrow> Mirror \<Rightarrow> bool" where
  "mirror_crosses s p b =
     (case s of
        Sell \<Rightarrow> (case best Buy (mirror_buys b) of None \<Rightarrow> False | Some l \<Rightarrow> p \<le> key l)
      | Buy \<Rightarrow> (case best Sell (mirror_sells b) of None \<Rightarrow> False | Some l \<Rightarrow> key l \<le> p))"

definition mirror_rest :: "Side \<Rightarrow> UID \<Rightarrow> Mirror \<Rightarrow> error + Mirror" where
  "mirror_rest s order_id b =
     (case mirror_orders b order_id of
        None \<Rightarrow> Inl OutOfRange
      | Some m \<Rightarrow>
          Inr (set_mirror_tree s (tree_limit order_id (as_order m) (mirror_tree s b)) b))"

definition mirror_limit_sell :: "UID \<Rightarrow> Quantity \<Rightarrow> Price \<Rightarrow> Mirror \<Rightarrow> error + Mirror" where
  "mirror_limit_sell order_id q p b =
     (let b1 = mirror_emplace order_id
                 \<lparr>mirror_uid = order_id, mirror_side = Sell, mirror_quantity = q,
                  mirror_price = p\<rparr> b
      in if mirror_crosses Sell p b1 then
           (let b2 = mirror_market Buy order_id b1
            in case mirror_orders b2 order_id of
                 None \<Rightarrow> Inl OutOfRange
               | Some m \<Rightarrow>
                   if mirror_quantity m = 0 then Inr (mirror_erase order_id b2)
                   else mirror_rest Sell order_id b2)
         else mirror_rest Sell order_id b1)"

definition mirror_limit_buy :: "UID \<Rightarrow> Quantity \<Rightarrow> Price \<Rightarrow> Mirror \<Rightarrow> error + Mirror" where
  "mirror_limit_buy order_id q p b =
     (let b1 = mirror_emplace order_id
                 \<lparr>mirror_uid = order_id, mirror_side = Buy, mirror_quantity = q,
                  mirror_price = p\<rparr> b
      in if mirror_crosses Buy p b1 then
           (let b2 = mirror_market Sell order_id b1
            in case mirror_orders b2 order_id of
                 None \<Rightarrow> Inl OutOfRange
               | Some m \<Rightarrow>
                   if mirror_quantity m = 0 then Inr (mirror_erase order_id b2)
                   else mirror_rest Buy order_id b2)
         else mirror_rest Buy order_id b1)"

definition mirror_limit ::
  "Side \<Rightarrow> UID \<Rightarrow> Quantity \<Rightarrow> Price \<Rightarrow> Mirror \<Rightarrow> error + Mirror" where
  "mirror_limit s order_id q p b =
     (case s of Sell \<Rightarrow> mirror_limit_sell order_id q p b | Buy \<Rightarrow> mirror_limit_buy order_id q p b)"

definition mirror_has :: "UID \<Rightarrow> Mirror \<Rightarrow> bool" where
  "mirror_has order_id b = (mirror_orders b order_id \<noteq> None)"

definition mirror_remove :: "UID \<Rightarrow> MirrorOrder \<Rightarrow> Mirror \<Rightarrow> Mirror" where
  "mirror_remove order_id m b =
     (let s = mirror_side m;
          b1 = set_mirror_tree s
                 (tree_remove (mirror_price m) order_id (mirror_quantity m) (mirror_tree s b)) b
      in b1\<lparr>mirror_orders := (mirror_orders b1)(order_id := None)\<rparr>)"

definition mirror_cancel :: "UID \<Rightarrow> Mirror \<Rightarrow> error + Mirror" where
  "mirror_cancel order_id b =
     (case mirror_orders b order_id of
        None \<Rightarrow> Inl OutOfRange
      | Some m \<Rightarrow> Inr (mirror_remove order_id m b))"

definition mirror_reduce :: "UID \<Rightarrow> Quantity \<Rightarrow> Mirror \<Rightarrow> error + Mirror" where
  "mirror_reduce order_id q b =
     (case mirror_orders b order_id of
        None \<Rightarrow> Inl OutOfRange
      | Some m \<Rightarrow>
          if mirror_quantity m < q then Inl (TryingToRemove q (mirror_quantity m))
          else
            (let m' = m\<lparr>mirror_quantity := mirror_quantity m - q\<rparr>;
                 s = mirror_side m;
                 b1 = b\<lparr>mirror_orders := (mirror_orders b)(order_id \<mapsto> m')\<rparr>;
                 b2 = set_mirror_tree s
                        (tree_volume_sub q (limit_volume_sub (mirror_price m) q (mirror_tree s b1)))
                        b1
             in if mirror_quantity m' = 0 then Inr (mirror_remove order_id m' b2) else Inr b2))"

definition mirror_clear :: "Mirror \<Rightarrow> Mirror" where
  "mirror_clear b =
     \<lparr>mirror_sells = empty_tree, mirror_buys = empty_tree, mirror_orders = Map.empty\<rparr>"

subsection \<open>\<^verbatim>\<open>DataFeed::Receiver\<close> (\<^verbatim>\<open>receiver.hpp\<close>)\<close>

text \<open>
  The packets of the feed: the sequence number of the header and the message the
  template id selects; \<open>UnknownMessage\<close> is any other id.
\<close>

datatype FeedMessage =
    StartOfSession
  | EndOfSession
  | Clear
  | AddOrder UID Price Quantity Side
  | DeleteOrder UID
  | Trade UID Price Quantity Side
  | UnknownMessage

record Packet =
  packet_sequence :: SequenceNumber
  packet_message :: FeedMessage

text \<open>
  The lines written to \<^verbatim>\<open>std::cerr\<close>: a sequence gap with the sequence received and the
  value printed as expected, and the two complaints about unknown uids.
\<close>

datatype LogLine =
    OutOfSequence SequenceNumber SequenceNumber
  | DeleteForNonExistentOrder UID
  | TradeForNonExistentOrder UID

datatype feed_error = InvalidHeader | BookError error

text \<open>
  The receiver: its mirror book, the session flag, the last sequence number, the lines
  logged, and the messages passed on to the handler (\<^verbatim>\<open>did_receive\<close>).
\<close>

record Receiver =
  book :: Mirror
  is_session_active :: bool
  last_sequence :: SequenceNumber
  cerr :: "LogLine list"
  did_receive :: "FeedMessage list"

definition notify :: "FeedMessage \<Rightarrow> Receiver \<Rightarrow> Receiver" where
  "notify m r = r\<lparr>did_receive := did_receive r @ [m]\<rparr>"

definition handle :: "FeedMessage \<Rightarrow> Receiver \<Rightarrow> feed_error + Receiver" where
  "handle m r =
     (case m of
        StartOfSession \<Rightarrow> Inr (notify m (r\<lparr>is_session_active := True\<rparr>))
      | EndOfSession \<Rightarrow> Inr (notify m (r\<lparr>is_session_active := False\<rparr>))
      | Clear \<Rightarrow> Inr (notify m (r\<lparr>book := mirror_clear (book r)\<rparr>))
      | AddOrder order_id p q s \<Rightarrow>
          (case mirror_limit s order_id q p (book r) of
             Inl e \<Rightarrow> Inl (BookError e)
           | Inr b \<Rightarrow> Inr (notify m (r\<lparr>book := b\<rparr>)))
      | DeleteOrder order_id \<Rightarrow>
          if \<not> mirror_has order_id (book r)
          then Inr (r\<lparr>cerr := cerr r @ [DeleteForNonExistentOrder order_id]\<rparr>)
          else
            (case mirror_cancel order_id (book r) of
               Inl e \<Rightarrow> Inl (BookError e)
             | Inr b \<Rightarrow> Inr (notify m (r\<lparr>book := b\<rparr>)))
      | Trade order_id p q s \<Rightarrow>
          if \<not> mirror_has order_id (book r)
          then Inr (r\<lparr>cerr := cerr r @ [TradeForNonExistentOrder order_id]\<rparr>)
          else
            (case mirror_reduce order_id q (book r) of
               Inl e \<Rightarrow> Inl (BookError e)
             | Inr b \<Rightarrow> Inr (notify m (r\<lparr>book := b\<rparr>)))
      | UnknownMessage \<Rightarrow> Inl InvalidHeader)"

text \<open>
  The sequence check of \<^verbatim>\<open>read_message\<close>: \<^verbatim>\<open>++last_sequence\<close>, then, when the
  header differs, three lines on \<^verbatim>\<open>std::cerr\<close> (the value printed as expected is
  \<^verbatim>\<open>last_sequence - 1\<close>) and \<^verbatim>\<open>last_sequence = sequence\<close>.
\<close>

definition check_sequence :: "SequenceNumber \<Rightarrow> Receiver \<Rightarrow> Receiver" where
  "check_sequence sq r =
     (let r1 = r\<lparr>last_sequence := last_sequence r + 1\<rparr>
      in if sq \<noteq> last_sequence r1
         then r1\<lparr>cerr := cerr r1 @ [OutOfSequence sq (last_sequence r1 - 1)],
                 last_sequence := sq\<rparr>
         else r1)"

definition read_message :: "Packet \<Rightarrow> Receiver \<Rightarrow> feed_error + Receiver" where
  "read_message p r = handle (packet_message p) (check_sequence (packet_sequence p) r)"

text \<open>Packets one after the other; an exception ends the receiver.\<close>

fun read_messages :: "Packet list \<Rightarrow> Receiver \<Rightarrow> feed_error + Receiver" where
  "read_messages [] r = Inr r"
| "read_messages (p # ps) r =
     (case read_message p r of Inl e \<Rightarrow> Inl e | Inr r' \<Rightarrow> read_messages ps r')"

text \<open>What packets do to a receiver apart from the sequence number and the log.\<close>

definition applied :: "Receiver \<Rightarrow> Mirror \<times> bool \<times> FeedMessage list" where
  "applied r = (book r, is_session_active r, did_receive r)"

definition gaps :: "Receiver \<Rightarrow> LogLine list" where
  "gaps r = filter (\<lambda>l. case l of OutOfSequence _ _ \<Rightarrow> True | _ \<Rightarrow> False) (cerr r)"

definition new_receiver :: Receiver where
  "new_receiver =
     \<lparr>book = \<lparr>mirror_sells = empty_tree, mirror_buys = empty_tree, mirror_orders = Map.empty\<rparr>,
      is_session_active = False, last_sequence = 0, cerr = [], did_receive = []\<rparr>"

text \<open>
  A receiver that has seen the packets 1 and 2 (the session starts, order 7 sells 10 at
  100), and the feed that continues with the packets 5 and 6, beside the same feed
  numbered without a gap.
\<close>

definition listening :: Receiver where
  "listening =
     \<lparr>book = \<lparr>mirror_sells = \<lparr>limits = [\<lparr>key = 100, count = 1, volume = 10, queue = [7]\<rparr>],
                                tree_count = 1, tree_volume = 10\<rparr>,
              mirror_buys = empty_tree,
              mirror_orders = [7 \<mapsto> \<lparr>mirror_uid = 7, mirror_side = Sell,
                                     mirror_quantity = 10, mirror_price = 100\<rparr>]\<rparr>,
      is_session_active = True, last_sequence = 2, cerr = [],
      did_receive = [StartOfSession, AddOrder 7 100 10 Sell]\<rparr>"

definition feed_with_gap :: "Packet list" where
  "feed_with_gap =
     [\<lparr>packet_sequence = 5, packet_message = DeleteOrder 7\<rparr>,
      \<lparr>packet_sequence = 6, packet_message = AddOrder 8 99 5 Buy\<rparr>]"

definition feed_in_order :: "Packet list" where
  "feed_in_order =
     [\<lparr>packet_sequence = 3, packet_message = DeleteOrder 7\<rparr>,
      \<lparr>packet_sequence = 4, packet_message = AddOrder 8 99 5 Buy\<rparr>]"

section \<open>The effect of \<^verbatim>\<open>fill\<close> on an account\<close>

lemma fill_shares:
  "shares (fill s q p a) = (case s of Sell \<Rightarrow> shares a - ucast q | Buy \<Rightarrow> shares a + ucast q)"
  by (cases s) (simp_all add: fill_def)

lemma fill_capital:
  "capital (fill s q p a) =
     (case s of Sell \<Rightarrow> capital a + ucast q * p | Buy \<Rightarrow> capital a - ucast q * p)"
  by (cases s) (simp_all add: fill_def)

lemma fill_orders: "orders (fill s q p a) = orders a"
  by (cases s) (simp_all add: fill_def)

section \<open>Best prices of an empty side\<close>

lemma best_empty: "limits t = [] \<Longrightarrow> best s t = None"
  by (simp add: best_def)

lemma sells_after_first_limit_sell:
  "sells (snd (limit_sell a q p (new_book accts conns))) =
     \<lparr>limits = [\<lparr>key = p, count = 1, volume = ucast q, queue = [1]\<rparr>],
      tree_count = 1, tree_volume = ucast q\<rparr>"
  by (simp add: limit_sell_def new_book_def Let_def crosses_def best_def empty_tree_def
      at_or_def emplace_def LimitTree_limit_def tree_def set_tree_def update_account_def
      tree_limit_def find_limit_def new_limit_def)

lemma buys_after_first_limit_buy:
  "buys (snd (limit_buy a q p (new_book accts conns))) =
     \<lparr>limits = [\<lparr>key = p, count = 1, volume = ucast q, queue = [1]\<rparr>],
      tree_count = 1, tree_volume = ucast q\<rparr>"
  by (simp add: limit_buy_def new_book_def Let_def crosses_def best_def empty_tree_def
      at_or_def emplace_def LimitTree_limit_def tree_def set_tree_def update_account_def
      tree_limit_def find_limit_def new_limit_def)

text \<open>
  Claim C10. \<^verbatim>\<open>best_sell()\<close> and \<^verbatim>\<open>best_buy()\<close> return 0 whenever their side is
  empty, and so does \<^verbatim>\<open>best(side)\<close>; a single order resting at price 0 in a new book
  gives the same answer, so the query does not tell an empty side from a level at
  price 0.
\<close>

theorem best_price_of_empty_side:
  "(limits (sells w) = [] \<longrightarrow> best_sell w = 0 \<and> best_price Sell w = 0)
   \<and> (limits (buys w) = [] \<longrightarrow> best_buy w = 0 \<and> best_price Buy w = 0)
   \<and> (limits (sells w) = [] \<longrightarrow>
        limits (sells (snd (limit_sell a q 0 (new_book accts conns)))) \<noteq> []
        \<and> best_sell (snd (limit_sell a q 0 (new_book accts conns))) = best_sell w)
   \<and> (limits (buys w) = [] \<longrightarrow>
        limits (buys (snd (limit_buy a q 0 (new_book accts conns)))) \<noteq> []
        \<and> best_buy (snd (limit_buy a q 0 (new_book accts conns))) = best_buy w)"
  by (simp add: best_sell_def best_buy_def best_price_def best_empty
      sells_after_first_limit_sell buys_after_first_limit_buy) (simp add: best_def)

theorem best_price_of_empty_side_witness:
  "limits (sells (new_book plain_accounts no_connections)) = []
   \<and> limits (buys (new_book plain_accounts no_connections)) = []
   \<and> best_sell (new_book plain_accounts no_connections) = 0
   \<and> best_buy (new_book plain_accounts no_connections) = 0
   \<and> best_price Sell (new_book plain_accounts no_connections) = 0
   \<and> best_price Buy (new_book plain_accounts no_connections) = 0
   \<and> limits (sells (snd (limit_sell 1 5 0 (new_book plain_accounts no_connections)))) \<noteq> []
   \<and> best_sell (snd (limit_sell 1 5 0 (new_book plain_accounts no_connections))) = 0
   \<and> limits (buys (snd (limit_buy 1 5 0 (new_book plain_accounts no_connections)))) \<noteq> []
   \<and> best_buy (snd (limit_buy 1 5 0 (new_book plain_accounts no_connections))) = 0"
proof -
  have e: "limits (sells (new_book plain_accounts no_connections)) = []"
    "limits (buys (new_book plain_accounts no_connections)) = []"
    by (simp_all add: new_book_def empty_tree_def)
  from e best_price_of_empty_side
    [of "new_book plain_accounts no_connections" 1 5 plain_accounts no_connections]
  show ?thesis by simp
qed

section \<open>Crossing of two books\<close>

lemma unat_spread: "unat (ucast (spread :: 32 word) :: 64 word) = unat spread"
proof -
  have "unat spread < 2 ^ 32" using unsigned_less [of spread] by simp
  then have "unat spread < 2 ^ 64" by simp
  then show ?thesis by (simp add: unsigned_ucast_eq take_bit_nat_eq_self)
qed

lemma unat_max_minus: "unat ((- 1) - (s :: 64 word)) = 2 ^ 64 - 1 - unat s"
proof -
  have "unat (- 1 :: 64 word) = 2 ^ 64 - 1"
    by (simp add: unsigned_minus_1_eq_mask mask_eq_exp_minus_1)
  moreover have "s \<le> - 1" by simp
  ultimately show ?thesis by (simp add: unat_sub)
qed

text \<open>
  Claim C6, as stated, fails: \<^verbatim>\<open>does_cross\<close> tests \<^verbatim>\<open>best_sell() == 0\<close>, not the
  pointer. With a sell order resting at price 0 in this book and a buy order at price 10
  in the other, the best sell level exists and \<open>0 + 0 < 10\<close>, yet the answer is false.
\<close>

theorem does_cross_price_zero_counterexample:
  "\<not> (does_cross (snd (limit_sell 1 5 0 (new_book plain_accounts no_connections)))
                 (snd (limit_buy 2 5 10 (new_book plain_accounts no_connections))) 0
       \<longleftrightarrow> best Sell (sells (snd (limit_sell 1 5 0 (new_book plain_accounts no_connections)))) \<noteq> None
            \<and> unat (best_sell (snd (limit_sell 1 5 0 (new_book plain_accounts no_connections))))
                + unat (0 :: Quantity)
                < unat (best_buy (snd (limit_buy 2 5 10 (new_book plain_accounts no_connections)))))"
  by (simp add: does_cross_def best_sell_def best_buy_def sells_after_first_limit_sell
      buys_after_first_limit_buy best_def)

text \<open>
  Claim C6, amended: \<^verbatim>\<open>does_cross\<close> is true exactly when \<^verbatim>\<open>best_sell()\<close> of this
  book is not 0 and the exact sum of it and the spread, as natural numbers, is below
  \<^verbatim>\<open>best_buy()\<close> of the other book; a sum that would overflow 64 bits gives false.
\<close>

theorem does_cross_iff:
  "does_cross this other spread \<longleftrightarrow>
     best_sell this \<noteq> 0 \<and> unat (best_sell this) + unat spread < unat (best_buy other)"
proof -
  let ?x = "best_sell this" and ?s = "ucast spread :: 64 word" and ?y = "best_buy other"
  have s: "unat ?s = unat spread" by (rule unat_spread)
  have ylt: "unat ?y < 2 ^ 64" using unsigned_less [of ?y] by simp
  have slt: "unat ?s < 2 ^ 64" using unsigned_less [of ?s] by simp
  have guard: "?x > (- 1) - ?s \<longleftrightarrow> 2 ^ 64 \<le> unat ?x + unat spread"
    using slt by (simp add: word_less_nat_alt unat_max_minus s) arith
  show ?thesis
  proof (cases "2 ^ 64 \<le> unat ?x + unat spread")
    case True
    with ylt guard show ?thesis by (simp add: does_cross_def)
  next
    case False
    then have "unat (?x + ?s) = unat ?x + unat spread"
      using unat_add_lem [of ?x ?s] by (simp add: s)
    with False guard show ?thesis
      by (simp add: does_cross_def word_less_nat_alt)
  qed
qed

theorem does_cross_iff_witness:
  "does_cross (snd (limit_sell 1 5 7 (new_book plain_accounts no_connections)))
              (snd (limit_buy 2 5 10 (new_book plain_accounts no_connections))) 2
   \<and> best_sell (snd (limit_sell 1 5 7 (new_book plain_accounts no_connections))) = 7
   \<and> best_buy (snd (limit_buy 2 5 10 (new_book plain_accounts no_connections))) = 10"
proof -
  have "best_sell (snd (limit_sell 1 5 7 (new_book plain_accounts no_connections))) = 7"
    "best_buy (snd (limit_buy 2 5 10 (new_book plain_accounts no_connections))) = 10"
    by (simp_all add: best_sell_def best_buy_def sells_after_first_limit_sell
        buys_after_first_limit_buy best_def)
  then show ?thesis
    using does_cross_iff [of "snd (limit_sell 1 5 7 (new_book plain_accounts no_connections))"
        "snd (limit_buy 2 5 10 (new_book plain_accounts no_connections))" 2]
    by simp
qed

section \<open>The order id of trade responses\<close>

lemma output_send:
  "output_buffer (connections (send c m w) c) =
     output_buffer (connections w c) @ [(conn_sequence (connections w c), m)]"
  by (simp add: send_def Let_def)

text \<open>
  Claim C4, as stated, fails for a crossing limit order: account 2 sells 15 at 100
  against the resting buy of 10. The remainder rests under uid 2, which \<^verbatim>\<open>limit_sell\<close>
  returns, but the taker-side trade response sent to connection 2 carries order id 0.
\<close>

theorem taker_trade_response_counterexample:
  "fst (limit_sell 2 15 100 resting_buy) = 2
   \<and> order_map (snd (limit_sell 2 15 100 resting_buy)) 2
        = Some \<lparr>uid = 2, side = Sell, quantity = 5, price = 100, account = 2\<rparr>
   \<and> output_buffer (connections (snd (limit_sell 2 15 100 resting_buy)) 2)
        = [(0, TradeResponse 0 100 10 5 Sell)]"
  by code_simp

text \<open>
  Claim C4, amended: a trade response for the maker side (\<^verbatim>\<open>limit_fill\<close>,
  \<^verbatim>\<open>limit_partial\<close>) carries the maker order's uid; a trade response for the taker side
  (\<^verbatim>\<open>market_fill\<close>, \<^verbatim>\<open>market_partial\<close>) carries order id 0 whatever the taker's uid
  is, for a market order and for a crossing limit order alike.
\<close>

theorem trade_response_order_id:
  assumes "handler (accounts w this) = Some h"
  shows "output_buffer (connections (SystemAccount_limit_fill this ptr maker taker w) h) =
           output_buffer (connections w h) @
             [(conn_sequence (connections w h),
               TradeResponse (uid maker) (price maker) (quantity maker) 0 (side maker))]
       \<and> output_buffer (connections (SystemAccount_limit_partial this maker taker w) h) =
           output_buffer (connections w h) @
             [(conn_sequence (connections w h),
               TradeResponse (uid maker) (price maker) (quantity taker) (quantity maker)
                 (side maker))]
       \<and> output_buffer (connections (SystemAccount_market_fill this maker taker w) h) =
           output_buffer (connections w h) @
             [(conn_sequence (connections w h),
               TradeResponse 0 (price maker) (quantity taker) 0 (side taker))]
       \<and> output_buffer (connections (SystemAccount_market_partial this maker taker w) h) =
           output_buffer (connections w h) @
             [(conn_sequence (connections w h),
               TradeResponse 0 (price maker) (quantity maker) (quantity taker) (side taker))]"
proof -
  have h: "handler (accounts (update_account this f w) this) = handler (f (accounts w this))" for f
    by (simp add: update_account_def)
  have c: "connections (update_account this f w) = connections w" for f
    by (simp add: update_account_def)
  have f: "handler (fill s q p a) = handler a" for s q p and a :: SystemAccount
    by (cases s) (simp_all add: fill_def)
  have k: "handler (account_cancel ptr a) = handler a" for a :: SystemAccount
    by (simp add: account_cancel_def)
  show ?thesis
    using assms
    by (simp add: SystemAccount_limit_fill_def SystemAccount_limit_partial_def
        SystemAccount_market_fill_def SystemAccount_market_partial_def Let_def h c f k
        limit_fill_def limit_partial_def market_fill_def market_partial_def trade_def output_send)
qed

theorem trade_response_order_id_witness:
  "handler (accounts (new_book session_accounts session_connections) 2) = Some 2
   \<and> output_buffer (connections
        (SystemAccount_market_partial 2
           \<lparr>uid = 1, side = Buy, quantity = 10, price = 100, account = 1\<rparr>
           \<lparr>uid = 2, side = Sell, quantity = 5, price = 100, account = 2\<rparr>
           (new_book session_accounts session_connections)) 2)
      = [(0, TradeResponse 0 100 10 5 Sell)]
   \<and> output_buffer (connections
        (SystemAccount_limit_fill 2 1
           \<lparr>uid = 1, side = Buy, quantity = 10, price = 100, account = 2\<rparr>
           \<lparr>uid = 2, side = Sell, quantity = 5, price = 100, account = 1\<rparr>
           (new_book session_accounts session_connections)) 2)
      = [(0, TradeResponse 1 100 10 0 Buy)]"
proof -
  have h: "handler (accounts (new_book session_accounts session_connections) 2) = Some 2"
    by (simp add: new_book_def session_accounts_def new_account_def)
  have b: "output_buffer (connections (new_book session_accounts session_connections) 2) = []"
    "conn_sequence (connections (new_book session_accounts session_connections) 2) = 0"
    by (simp_all add: new_book_def session_connections_def new_connection_def)
  show ?thesis
    using h b
      trade_response_order_id [OF h, of 1
        "\<lparr>uid = 1, side = Buy, quantity = 10, price = 100, account = 2\<rparr>"
        "\<lparr>uid = 2, side = Sell, quantity = 5, price = 100, account = 1\<rparr>"]
      trade_response_order_id [OF h, of 1
        "\<lparr>uid = 1, side = Buy, quantity = 10, price = 100, account = 1\<rparr>"
        "\<lparr>uid = 2, side = Sell, quantity = 5, price = 100, account = 2\<rparr>"]
    by simp
qed

section \<open>Conservation of shares and capital\<close>

lemma sum_fun_upd:
  fixes g :: "'b \<Rightarrow> 64 word"
  assumes "finite A" and "a \<in> A"
  shows "(\<Sum>b\<in>A. g ((f(a := v)) b)) = (\<Sum>b\<in>A. g (f b)) - g (f a) + g v"
proof -
  have "(\<Sum>b\<in>A. g ((f(a := v)) b)) = g v + (\<Sum>b\<in>A - {a}. g ((f(a := v)) b))"
    using assms by (simp add: sum.remove)
  also have "(\<Sum>b\<in>A - {a}. g ((f(a := v)) b)) = (\<Sum>b\<in>A - {a}. g (f b))"
    by (rule sum.cong) auto
  also have "(\<Sum>b\<in>A. g (f b)) = g (f a) + (\<Sum>b\<in>A - {a}. g (f b))"
    using assms by (simp add: sum.remove)
  then have "(\<Sum>b\<in>A - {a}. g (f b)) = (\<Sum>b\<in>A. g (f b)) - g (f a)" by simp
  finally show ?thesis by simp
qed

lemma sum_update_account:
  fixes g :: "SystemAccount \<Rightarrow> 64 word"
  assumes "finite A" and "a \<in> A"
  shows "(\<Sum>b\<in>A. g (accounts (update_account a f w) b))
           = (\<Sum>b\<in>A. g (accounts w b)) - g (accounts w a) + g (f (accounts w a))"
  using sum_fun_upd [OF assms, of g "accounts w" "f (accounts w a)"]
  by (simp add: update_account_def del: fun_upd_apply)

lemma total_shares_fill:
  assumes "finite A" and "a \<in> A"
  shows "total_shares A (update_account a (fill s q p) w) = total_shares A w + signed_by s (ucast q)"
  by (cases s) (simp_all add: total_shares_def sum_update_account [OF assms] fill_shares signed_by_def)

lemma total_capital_fill:
  assumes "finite A" and "a \<in> A"
  shows "total_capital A (update_account a (fill s q p) w) = total_capital A w - signed_by s (ucast q * p)"
  by (cases s) (simp_all add: total_capital_def sum_update_account [OF assms] fill_capital signed_by_def)

lemma update_account_comp:
  "update_account a f (update_account a g w) = update_account a (f \<circ> g) w"
  by (simp add: update_account_def)

lemma accounts_send [simp]: "accounts (send c m w) = accounts w"
  by (simp add: send_def Let_def)

lemma accounts_trade [simp]: "accounts (trade c i p q r d w) = accounts w"
  by (simp add: trade_def)

lemma accounts_erase [simp]: "accounts (erase u w) = accounts w"
  by (simp add: erase_def)

lemma accounts_set_tree [simp]: "accounts (set_tree s t w) = accounts w"
  by (cases s) (simp_all add: set_tree_def)

lemma total_shares_cong: "accounts w = accounts w' \<Longrightarrow> total_shares A w = total_shares A w'"
  by (simp add: total_shares_def)

lemma total_capital_cong: "accounts w = accounts w' \<Longrightarrow> total_capital A w = total_capital A w'"
  by (simp add: total_capital_def)

lemma callbacks_as_fill:
  "limit_fill ptr l m = fill (side l) (quantity l) (price l) \<circ> account_cancel ptr"
  "limit_partial l m = fill (side l) (quantity m) (price l)"
  "market_fill l m = fill (side m) (quantity m) (price l)"
  "market_partial l m = fill (side m) (quantity l) (price l)"
  by (rule ext, simp add: limit_fill_def limit_partial_def market_fill_def market_partial_def)+

lemma accounts_SystemAccount_limit_fill:
  "accounts (SystemAccount_limit_fill this ptr l m w)
     = accounts (update_account this (fill (side l) (quantity l) (price l))
                  (update_account this (account_cancel ptr) w))"
  by (simp add: SystemAccount_limit_fill_def Let_def callbacks_as_fill update_account_def
      split: option.split)

lemma accounts_SystemAccount_limit_partial:
  "accounts (SystemAccount_limit_partial this l m w)
     = accounts (update_account this (fill (side l) (quantity m) (price l)) w)"
  by (simp add: SystemAccount_limit_partial_def Let_def callbacks_as_fill split: option.split)

lemma accounts_SystemAccount_market_fill:
  "accounts (SystemAccount_market_fill this l m w)
     = accounts (update_account this (fill (side m) (quantity m) (price l)) w)"
  by (simp add: SystemAccount_market_fill_def Let_def callbacks_as_fill split: option.split)

lemma accounts_SystemAccount_market_partial:
  "accounts (SystemAccount_market_partial this l m w)
     = accounts (update_account this (fill (side m) (quantity l) (price l)) w)"
  by (simp add: SystemAccount_market_partial_def Let_def callbacks_as_fill split: option.split)

lemma total_shares_cancel:
  "total_shares A (update_account a (account_cancel ptr) w) = total_shares A w"
  unfolding total_shares_def update_account_def account_cancel_def
  by (rule sum.cong) auto

lemma total_capital_cancel:
  "total_capital A (update_account a (account_cancel ptr) w) = total_capital A w"
  unfolding total_capital_def update_account_def account_cancel_def
  by (rule sum.cong) auto

text \<open>The effect of each callback on the two totals.\<close>

lemma totals_limit_fill:
  assumes "finite A" and "this \<in> A"
  shows "total_shares A (SystemAccount_limit_fill this ptr l m w)
           = total_shares A w + signed_by (side l) (ucast (quantity l))"
    and "total_capital A (SystemAccount_limit_fill this ptr l m w)
           = total_capital A w - signed_by (side l) (ucast (quantity l) * price l)"
  using total_shares_cong [OF accounts_SystemAccount_limit_fill, of A this ptr l m w]
    total_capital_cong [OF accounts_SystemAccount_limit_fill, of A this ptr l m w]
  by (simp_all add: total_shares_fill [OF assms] total_capital_fill [OF assms]
      total_shares_cancel total_capital_cancel)

lemma totals_limit_partial:
  assumes "finite A" and "this \<in> A"
  shows "total_shares A (SystemAccount_limit_partial this l m w)
           = total_shares A w + signed_by (side l) (ucast (quantity m))"
    and "total_capital A (SystemAccount_limit_partial this l m w)
           = total_capital A w - signed_by (side l) (ucast (quantity m) * price l)"
  using total_shares_cong [OF accounts_SystemAccount_limit_partial, of A this l m w]
    total_capital_cong [OF accounts_SystemAccount_limit_partial, of A this l m w]
  by (simp_all add: total_shares_fill [OF assms] total_capital_fill [OF assms])

lemma totals_market_fill:
  assumes "finite A" and "this \<in> A"
  shows "total_shares A (SystemAccount_market_fill this l m w)
           = total_shares A w + signed_by (side m) (ucast (quantity m))"
    and "total_capital A (SystemAccount_market_fill this l m w)
           = total_capital A w - signed_by (side m) (ucast (quantity m) * price l)"
  using total_shares_cong [OF accounts_SystemAccount_market_fill, of A this l m w]
    total_capital_cong [OF accounts_SystemAccount_market_fill, of A this l m w]
  by (simp_all add: total_shares_fill [OF assms] total_capital_fill [OF assms])

lemma totals_market_partial:
  assumes "finite A" and "this \<in> A"
  shows "total_shares A (SystemAccount_market_partial this l m w)
           = total_shares A w + signed_by (side m) (ucast (quantity l))"
    and "total_capital A (SystemAccount_market_partial this l m w)
           = total_capital A w - signed_by (side m) (ucast (quantity l) * price l)"
  using total_shares_cong [OF accounts_SystemAccount_market_partial, of A this l m w]
    total_capital_cong [OF accounts_SystemAccount_market_partial, of A this l m w]
  by (simp_all add: total_shares_fill [OF assms] total_capital_fill [OF assms])

lemma signed_by_opposite: "s \<noteq> s' \<Longrightarrow> signed_by s x + signed_by s' x = 0"
  by (cases s; cases s') (simp_all add: signed_by_def)

lemma totals_match_and_continue:
  assumes "finite A" and "account m \<in> A" and "account taker \<in> A" and "side m \<noteq> side taker"
  shows "total_shares A (match_and_continue s b ptr m taker w) = total_shares A w"
    and "total_capital A (match_and_continue s b ptr m taker w) = total_capital A w"
proof -
  let ?w1 = "SystemAccount_limit_fill (account m) ptr m taker w"
  let ?w2 = "SystemAccount_market_partial (account taker) m taker ?w1"
  have acc: "accounts (match_and_continue s b ptr m taker w) = accounts ?w2"
    by (simp add: match_and_continue_def Let_def)
  have "total_shares A ?w2 = total_shares A w
          + (signed_by (side m) (ucast (quantity m)) + signed_by (side taker) (ucast (quantity m)))"
    by (simp add: totals_market_partial [OF assms(1,3)] totals_limit_fill [OF assms(1,2)])
  with assms(4) show "total_shares A (match_and_continue s b ptr m taker w) = total_shares A w"
    by (simp add: signed_by_opposite total_shares_cong [OF acc])
  have "total_capital A ?w2 = total_capital A w
          - (signed_by (side m) (ucast (quantity m) * price m)
             + signed_by (side taker) (ucast (quantity m) * price m))"
    by (simp add: totals_market_partial [OF assms(1,3)] totals_limit_fill [OF assms(1,2)])
  with assms(4) show "total_capital A (match_and_continue s b ptr m taker w) = total_capital A w"
    by (simp add: signed_by_opposite total_capital_cong [OF acc])
qed

lemma totals_match_exact:
  assumes "finite A" and "account m \<in> A" and "account taker \<in> A" and "side m \<noteq> side taker"
    and "quantity m = quantity taker"
  shows "total_shares A (match_exact s b ptr m taker w) = total_shares A w"
    and "total_capital A (match_exact s b ptr m taker w) = total_capital A w"
proof -
  let ?w1 = "SystemAccount_limit_fill (account m) ptr m taker w"
  let ?w2 = "SystemAccount_market_fill (account taker) m taker ?w1"
  have acc: "accounts (match_exact s b ptr m taker w) = accounts ?w2"
    by (simp add: match_exact_def Let_def)
  have "total_shares A ?w2 = total_shares A w
          + (signed_by (side m) (ucast (quantity m)) + signed_by (side taker) (ucast (quantity m)))"
    by (simp add: totals_market_fill [OF assms(1,3)] totals_limit_fill [OF assms(1,2)] assms(5))
  with assms(4) show "total_shares A (match_exact s b ptr m taker w) = total_shares A w"
    by (simp add: signed_by_opposite total_shares_cong [OF acc])
  have "total_capital A ?w2 = total_capital A w
          - (signed_by (side m) (ucast (quantity m) * price m)
             + signed_by (side taker) (ucast (quantity m) * price m))"
    by (simp add: totals_market_fill [OF assms(1,3)] totals_limit_fill [OF assms(1,2)] assms(5))
  with assms(4) show "total_capital A (match_exact s b ptr m taker w) = total_capital A w"
    by (simp add: signed_by_opposite total_capital_cong [OF acc])
qed

lemma totals_match_partial:
  assumes "finite A" and "account m \<in> A" and "account taker \<in> A" and "side m \<noteq> side taker"
  shows "total_shares A (match_partial s b ptr m taker w) = total_shares A w"
    and "total_capital A (match_partial s b ptr m taker w) = total_capital A w"
proof -
  let ?m = "m\<lparr>quantity := quantity m - quantity taker\<rparr>"
  let ?w1 = "w\<lparr>order_map := (order_map w)(ptr \<mapsto> ?m)\<rparr>"
  let ?w2 = "set_tree s (tree_volume_sub (quantity taker)
                (limit_volume_sub (key b) (quantity taker) (tree s ?w1))) ?w1"
  let ?w3 = "SystemAccount_limit_partial (account m) ?m taker ?w2"
  let ?w4 = "SystemAccount_market_fill (account taker) ?m taker ?w3"
  have eq: "match_partial s b ptr m taker w = ?w4"
    by (simp add: match_partial_def Let_def)
  have base: "total_shares A ?w2 = total_shares A w" "total_capital A ?w2 = total_capital A w"
    by (simp_all add: total_shares_def total_capital_def)
  have "total_shares A ?w4 = total_shares A w
          + (signed_by (side m) (ucast (quantity taker))
             + signed_by (side taker) (ucast (quantity taker)))"
    using assms(2) by (simp add: totals_market_fill [OF assms(1,3)] totals_limit_partial [OF assms(1)] base)
  with assms(4) show "total_shares A (match_partial s b ptr m taker w) = total_shares A w"
    by (simp add: signed_by_opposite eq)
  have "total_capital A ?w4 = total_capital A w
          - (signed_by (side m) (ucast (quantity taker) * price m)
             + signed_by (side taker) (ucast (quantity taker) * price m))"
    using assms(2) by (simp add: totals_market_fill [OF assms(1,3)] totals_limit_partial [OF assms(1)] base)
  with assms(4) show "total_capital A (match_partial s b ptr m taker w) = total_capital A w"
    by (simp add: signed_by_opposite eq)
qed

lemma order_map_set_tree [simp]: "order_map (set_tree s t w) = order_map w"
  by (cases s) (simp_all add: set_tree_def)

lemma order_map_update_account [simp]: "order_map (update_account a f w) = order_map w"
  by (simp add: update_account_def)

lemma order_map_send [simp]: "order_map (send c m w) = order_map w"
  by (simp add: send_def Let_def)

lemma order_map_trade [simp]: "order_map (trade c i p q r d w) = order_map w"
  by (simp add: trade_def)

lemma order_map_erase [simp]: "order_map (erase u w) = (order_map w)(u := None)"
  by (simp add: erase_def)

lemma order_map_SystemAccount [simp]:
  "order_map (SystemAccount_limit_fill a ptr l m w) = order_map w"
  "order_map (SystemAccount_limit_partial a l m w) = order_map w"
  "order_map (SystemAccount_market_fill a l m w) = order_map w"
  "order_map (SystemAccount_market_partial a l m w) = order_map w"
  by (simp_all add: SystemAccount_limit_fill_def SystemAccount_limit_partial_def
      SystemAccount_market_fill_def SystemAccount_market_partial_def Let_def split: option.split)

lemma order_map_match_and_continue:
  "order_map (match_and_continue s b ptr m taker w) = (order_map w)(uid m := None)"
  by (simp add: match_and_continue_def Let_def)

lemma set_queued_tree_remove: "set (queued (tree_remove k ptr q t)) \<subseteq> set (queued t)"
proof -
  have "set (concat (map queue (filter (\<lambda>l. queue l \<noteq> [])
          (map (\<lambda>l. if key l = k then limit_remove ptr q l else l) ls))))
        \<subseteq> set (concat (map queue ls))" for ls
    by (induction ls) (auto simp: limit_remove_def dest: notin_set_remove1)
  then show ?thesis by (simp add: queued_def tree_remove_def)
qed

lemma market_totals:
  "finite A \<Longrightarrow> account taker \<in> A \<Longrightarrow> side taker \<noteq> s \<Longrightarrow> accounts_within A w \<Longrightarrow>
   sides_agree s w \<Longrightarrow>
   total_shares A (snd (LimitTree_market s taker w)) = total_shares A w
   \<and> total_capital A (snd (LimitTree_market s taker w)) = total_capital A w"
proof (induction s taker w rule: LimitTree_market.induct)
  case (1 s taker w)
  show ?case
  proof (cases "quantity taker = 0")
    case True
    then show ?thesis by (simp add: LimitTree_market.simps)
  next
    case q: False
    show ?thesis
    proof (cases "head_of_best s w")
      case None
      with q show ?thesis by (simp add: LimitTree_market.simps)
    next
      case (Some x)
      obtain b ptr m where hb: "head_of_best s w = Some (b, ptr, m)"
        using Some by (cases x) auto
      from head_of_best_Some [OF hb]
      have b: "b \<in> set (limits (tree s w))" and ptr: "ptr \<in> set (queue b)"
        and m: "order_map w ptr = Some m" by simp_all
      from b ptr have "ptr \<in> set (queued (tree s w))" by (auto simp: queued_def)
      with m "1.prems"(5) have sm: "side m = s" by (auto simp: sides_agree_def)
      with "1.prems"(3) have opp: "side m \<noteq> side taker" by simp
      from m "1.prems"(4) have am: "account m \<in> A" by (auto simp: accounts_within_def)
      show ?thesis
      proof (cases "can_match s (key b) (price taker)")
        case False
        with q hb show ?thesis by (simp add: LimitTree_market.simps)
      next
        case cm: True
        consider (more) "quantity m < quantity taker" | (exact) "quantity m = quantity taker"
          | (part) "quantity taker < quantity m" by (meson linorder_neqE)
        then show ?thesis
        proof cases
          case more
          let ?t = "taker\<lparr>quantity := quantity taker - quantity m\<rparr>"
          let ?w = "match_and_continue s b ptr m ?t w"
          have aw: "accounts_within A ?w"
            using "1.prems"(4) by (auto simp: accounts_within_def order_map_match_and_continue)
          have sa: "sides_agree s ?w"
            using "1.prems"(5) set_queued_tree_remove [of "key b" ptr "quantity m" "tree s w"]
            by (auto simp: sides_agree_def order_map_match_and_continue tree_match_and_continue
                split: if_splits)
          have "total_shares A (snd (LimitTree_market s ?t ?w)) = total_shares A ?w
              \<and> total_capital A (snd (LimitTree_market s ?t ?w)) = total_capital A ?w"
            using "1.IH" [of "(b, ptr, m)" b "(ptr, m)" ptr m] q hb cm more "1.prems" aw sa
            by simp
          moreover have "total_shares A ?w = total_shares A w" "total_capital A ?w = total_capital A w"
            using totals_match_and_continue [OF "1.prems"(1) am, of ?t s b ptr w] "1.prems"(2) opp
            by simp_all
          moreover have "LimitTree_market s taker w = LimitTree_market s ?t ?w"
            using q hb cm more by (subst LimitTree_market.simps) simp
          ultimately show ?thesis by simp
        next
          case exact
          have "LimitTree_market s taker w = (taker\<lparr>quantity := 0\<rparr>, match_exact s b ptr m taker w)"
            using q hb cm exact by (subst LimitTree_market.simps) simp
          then show ?thesis
            using totals_match_exact [OF "1.prems"(1) am "1.prems"(2) opp exact] by simp
        next
          case part
          have "LimitTree_market s taker w = (taker\<lparr>quantity := 0\<rparr>, match_partial s b ptr m taker w)"
            using q hb cm part by (subst LimitTree_market.simps) auto
          then show ?thesis
            using totals_match_partial [OF "1.prems"(1) am "1.prems"(2) opp] by simp
        qed
      qed
    qed
  qed
qed

section \<open>What matching leaves alone\<close>

lemma evolves_refl: "evolves w w"
  by (simp add: evolves_def)

lemma evolves_trans:
  assumes "evolves w w'" and "evolves w' w''"
  shows "evolves w w''"
  unfolding evolves_def
proof (intro conjI allI impI)
  show "sequence w'' = sequence w"
    using assms by (simp add: evolves_def)
next
  fix u ord''
  assume "order_map w'' u = Some ord''"
  with assms(2) obtain ord' where o': "order_map w' u = Some ord'"
    "side ord'' = side ord'" "account ord'' = account ord'"
    unfolding evolves_def by blast
  with assms(1) obtain ord where "order_map w u = Some ord"
    "side ord' = side ord" "account ord' = account ord"
    unfolding evolves_def by blast
  with o' show "\<exists>ord. order_map w u = Some ord \<and> side ord'' = side ord
      \<and> account ord'' = account ord" by simp
next
  fix s
  have "set (queued (tree s w'')) \<subseteq> set (queued (tree s w'))"
    using assms(2) by (simp add: evolves_def)
  moreover have "set (queued (tree s w')) \<subseteq> set (queued (tree s w))"
    using assms(1) by (simp add: evolves_def)
  ultimately show "set (queued (tree s w'')) \<subseteq> set (queued (tree s w))"
    by (rule subset_trans)
qed

lemma set_tree_set_tree [simp]: "set_tree s t (set_tree s t' w) = set_tree s t w"
  by (cases s) (simp_all add: set_tree_def)

lemma tree_set_tree_other: "tree s' (set_tree s t w) = (if s' = s then t else tree s' w)"
  by (cases s; cases s') (simp_all add: tree_def set_tree_def)

lemma sequence_frame [simp]:
  "sequence (set_tree s t w) = sequence w"
  "sequence (update_account a f w) = sequence w"
  "sequence (erase u w) = sequence w"
  "sequence (send c msg w) = sequence w"
  "sequence (trade c i p q r d w) = sequence w"
  by (cases s) (simp_all add: set_tree_def update_account_def erase_def send_def Let_def trade_def)

lemma sequence_SystemAccount [simp]:
  "sequence (SystemAccount_limit_fill a ptr l m w) = sequence w"
  "sequence (SystemAccount_limit_partial a l m w) = sequence w"
  "sequence (SystemAccount_market_fill a l m w) = sequence w"
  "sequence (SystemAccount_market_partial a l m w) = sequence w"
  by (simp_all add: SystemAccount_limit_fill_def SystemAccount_limit_partial_def
      SystemAccount_market_fill_def SystemAccount_market_partial_def Let_def split: option.split)

lemma queued_volume_sub [simp]:
  "queued (limit_volume_sub k q t) = queued t"
  "queued (tree_volume_sub q t) = queued t"
proof -
  have "concat (map queue (map (\<lambda>l. if key l = k then l\<lparr>volume := volume l - ucast q\<rparr> else l) ls))
      = concat (map queue ls)" for ls
    by (induction ls) auto
  then show "queued (limit_volume_sub k q t) = queued t"
    by (simp add: queued_def limit_volume_sub_def)
  show "queued (tree_volume_sub q t) = queued t"
    by (simp add: queued_def tree_volume_sub_def)
qed

lemma tree_order_map_update [simp]: "tree s (w\<lparr>order_map := om\<rparr>) = tree s w"
  by (cases s) (simp_all add: tree_def)

lemma tree_sequence_update [simp]: "tree s (w\<lparr>sequence := n\<rparr>) = tree s w"
  by (cases s) (simp_all add: tree_def)

lemma tree_erase_any [simp]: "tree s' (erase u w) = tree s' w"
  by (cases s') (simp_all add: tree_def erase_def)

lemma tree_match_and_continue_any:
  "tree s' (match_and_continue s b ptr m taker w)
     = (if s' = s then tree_remove (key b) ptr (quantity m) (tree s w) else tree s' w)"
  by (simp add: match_and_continue_def Let_def tree_set_tree_other)

lemma tree_match_exact_any:
  "tree s' (match_exact s b ptr m taker w)
     = (if s' = s then tree_remove (key b) ptr (quantity m) (tree s w) else tree s' w)"
  by (simp add: match_exact_def Let_def tree_set_tree_other)

lemma tree_match_partial_any:
  "tree s' (match_partial s b ptr m taker w)
     = (if s' = s then tree_volume_sub (quantity taker)
                         (limit_volume_sub (key b) (quantity taker) (tree s w))
        else tree s' w)"
  by (simp add: match_partial_def Let_def tree_set_tree_other)

lemma order_map_match_exact:
  "order_map (match_exact s b ptr m taker w) = (order_map w)(uid m := None)"
  by (simp add: match_exact_def Let_def)

lemma order_map_match_partial:
  "order_map (match_partial s b ptr m taker w)
     = (order_map w)(ptr \<mapsto> m\<lparr>quantity := quantity m - quantity taker\<rparr>)"
  by (simp add: match_partial_def Let_def)

lemma sequence_match [simp]:
  "sequence (match_and_continue s b ptr m taker w) = sequence w"
  "sequence (match_exact s b ptr m taker w) = sequence w"
  "sequence (match_partial s b ptr m taker w) = sequence w"
  by (simp_all add: match_and_continue_def match_exact_def match_partial_def Let_def)

lemma evolves_match_and_continue: "evolves w (match_and_continue s b ptr m taker w)"
  unfolding evolves_def
proof (intro conjI allI impI)
  show "sequence (match_and_continue s b ptr m taker w) = sequence w" by simp
next
  fix u ord'
  assume "order_map (match_and_continue s b ptr m taker w) u = Some ord'"
  then have "order_map w u = Some ord'"
    by (simp add: order_map_match_and_continue split: if_splits)
  then show "\<exists>ord. order_map w u = Some ord \<and> side ord' = side ord \<and> account ord' = account ord"
    by simp
next
  fix s'
  show "set (queued (tree s' (match_and_continue s b ptr m taker w))) \<subseteq> set (queued (tree s' w))"
    using set_queued_tree_remove [of "key b" ptr "quantity m" "tree s w"]
    by (simp add: tree_match_and_continue_any)
qed

lemma evolves_match_exact: "evolves w (match_exact s b ptr m taker w)"
  unfolding evolves_def
proof (intro conjI allI impI)
  show "sequence (match_exact s b ptr m taker w) = sequence w" by simp
next
  fix u ord'
  assume "order_map (match_exact s b ptr m taker w) u = Some ord'"
  then have "order_map w u = Some ord'"
    by (simp add: order_map_match_exact split: if_splits)
  then show "\<exists>ord. order_map w u = Some ord \<and> side ord' = side ord \<and> account ord' = account ord"
    by simp
next
  fix s'
  show "set (queued (tree s' (match_exact s b ptr m taker w))) \<subseteq> set (queued (tree s' w))"
    using set_queued_tree_remove [of "key b" ptr "quantity m" "tree s w"]
    by (simp add: tree_match_exact_any)
qed

lemma evolves_match_partial:
  assumes "order_map w ptr = Some m"
  shows "evolves w (match_partial s b ptr m taker w)"
  unfolding evolves_def
proof (intro conjI allI impI)
  show "sequence (match_partial s b ptr m taker w) = sequence w" by simp
next
  fix u ord'
  assume "order_map (match_partial s b ptr m taker w) u = Some ord'"
  with assms show "\<exists>ord. order_map w u = Some ord \<and> side ord' = side ord
      \<and> account ord' = account ord"
    by (cases "u = ptr") (auto simp: order_map_match_partial)
next
  fix s'
  show "set (queued (tree s' (match_partial s b ptr m taker w))) \<subseteq> set (queued (tree s' w))"
    by (simp add: tree_match_partial_any)
qed

lemma market_evolves:
  "evolves w (snd (LimitTree_market s taker w))
   \<and> (\<exists>q. fst (LimitTree_market s taker w) = taker\<lparr>quantity := q\<rparr>)"
proof (induction s taker w rule: LimitTree_market.induct)
  case (1 s taker w)
  have same: "\<exists>q. taker = taker\<lparr>quantity := q\<rparr>"
    by (rule exI [of _ "quantity taker"]) simp
  show ?case
  proof (cases "quantity taker = 0")
    case True
    with same show ?thesis by (simp add: LimitTree_market.simps evolves_refl)
  next
    case q: False
    show ?thesis
    proof (cases "head_of_best s w")
      case None
      with q same show ?thesis by (simp add: LimitTree_market.simps evolves_refl)
    next
      case (Some x)
      obtain b ptr m where hb: "head_of_best s w = Some (b, ptr, m)"
        using Some by (cases x) auto
      from head_of_best_Some [OF hb] have m: "order_map w ptr = Some m" by simp
      show ?thesis
      proof (cases "can_match s (key b) (price taker)")
        case False
        with q hb same show ?thesis by (simp add: LimitTree_market.simps evolves_refl)
      next
        case cm: True
        consider (more) "quantity m < quantity taker" | (exact) "quantity m = quantity taker"
          | (part) "quantity taker < quantity m" by (meson linorder_neqE)
        then show ?thesis
        proof cases
          case more
          let ?t = "taker\<lparr>quantity := quantity taker - quantity m\<rparr>"
          let ?w = "match_and_continue s b ptr m ?t w"
          have ih: "evolves ?w (snd (LimitTree_market s ?t ?w))
              \<and> (\<exists>q. fst (LimitTree_market s ?t ?w) = ?t\<lparr>quantity := q\<rparr>)"
            using "1.IH" [of "(b, ptr, m)" b "(ptr, m)" ptr m] q hb cm more by simp
          have eq: "LimitTree_market s taker w = LimitTree_market s ?t ?w"
            using q hb cm more by (subst LimitTree_market.simps) simp
          from ih obtain q' where "fst (LimitTree_market s ?t ?w) = taker\<lparr>quantity := q'\<rparr>"
            by auto
          with ih eq evolves_trans [OF evolves_match_and_continue] show ?thesis by auto
        next
          case exact
          have "LimitTree_market s taker w = (taker\<lparr>quantity := 0\<rparr>, match_exact s b ptr m taker w)"
            using q hb cm exact by (subst LimitTree_market.simps) simp
          then show ?thesis by (auto simp: evolves_match_exact)
        next
          case part
          have "LimitTree_market s taker w = (taker\<lparr>quantity := 0\<rparr>, match_partial s b ptr m taker w)"
            using q hb cm part by (subst LimitTree_market.simps) auto
          then show ?thesis using m by (auto simp: evolves_match_partial)
        qed
      qed
    qed
  qed
qed

section \<open>Trades are priced by the resting order\<close>

text \<open>The matching steps do not read the taker's price.\<close>

lemma SystemAccount_taker_price:
  "SystemAccount_limit_fill a ptr l (m\<lparr>price := p'\<rparr>) w = SystemAccount_limit_fill a ptr l m w"
  "SystemAccount_limit_partial a l (m\<lparr>price := p'\<rparr>) w = SystemAccount_limit_partial a l m w"
  "SystemAccount_market_fill a l (m\<lparr>price := p'\<rparr>) w = SystemAccount_market_fill a l m w"
  "SystemAccount_market_partial a l (m\<lparr>price := p'\<rparr>) w
     = SystemAccount_market_partial a l m w"
  by (simp_all add: SystemAccount_limit_fill_def SystemAccount_limit_partial_def
      SystemAccount_market_fill_def SystemAccount_market_partial_def callbacks_as_fill Let_def
      split: option.split)

lemma match_taker_price:
  "match_and_continue s b ptr m (taker\<lparr>price := p'\<rparr>) w = match_and_continue s b ptr m taker w"
  "match_exact s b ptr m (taker\<lparr>price := p'\<rparr>) w = match_exact s b ptr m taker w"
  "match_partial s b ptr m (taker\<lparr>price := p'\<rparr>) w = match_partial s b ptr m taker w"
  by (simp_all add: match_and_continue_def match_exact_def match_partial_def Let_def
      SystemAccount_taker_price)

text \<open>What each matching step does to the accounts.\<close>

lemma accounts_SystemAccount:
  "accounts (SystemAccount_limit_fill a ptr l m w)
     = (accounts w)(a := limit_fill ptr l m (accounts w a))"
  "accounts (SystemAccount_limit_partial a l m w)
     = (accounts w)(a := limit_partial l m (accounts w a))"
  "accounts (SystemAccount_market_fill a l m w)
     = (accounts w)(a := market_fill l m (accounts w a))"
  "accounts (SystemAccount_market_partial a l m w)
     = (accounts w)(a := market_partial l m (accounts w a))"
  by (simp_all add: SystemAccount_limit_fill_def SystemAccount_limit_partial_def
      SystemAccount_market_fill_def SystemAccount_market_partial_def Let_def
      update_account_def split: option.split)

lemma accounts_match_and_continue:
  "accounts (match_and_continue s b ptr m taker w)
     = (let f = (accounts w)
                  (account m := fill (side m) (quantity m) (price m)
                                  (account_cancel ptr (accounts w (account m))))
        in f(account taker := fill (side taker) (quantity m) (price m) (f (account taker))))"
  by (simp add: match_and_continue_def Let_def accounts_SystemAccount limit_fill_def
      market_partial_def)

lemma accounts_match_exact:
  "accounts (match_exact s b ptr m taker w)
     = (let f = (accounts w)
                  (account m := fill (side m) (quantity m) (price m)
                                  (account_cancel ptr (accounts w (account m))))
        in f(account taker := fill (side taker) (quantity taker) (price m) (f (account taker))))"
  by (simp add: match_exact_def Let_def accounts_SystemAccount limit_fill_def market_fill_def)

lemma accounts_match_partial:
  "accounts (match_partial s b ptr m taker w)
     = (let f = (accounts w)
                  (account m := fill (side m) (quantity taker) (price m) (accounts w (account m)))
        in f(account taker := fill (side taker) (quantity taker) (price m) (f (account taker))))"
  by (simp add: match_partial_def Let_def accounts_SystemAccount limit_partial_def
      market_fill_def)

text \<open>No matching step adds a price level.\<close>

lemma keys_tree_remove: "key ` set (limits (tree_remove k ptr q t)) \<subseteq> key ` set (limits t)"
  by (auto simp: tree_remove_def limit_remove_def split: if_splits)

lemma keys_volume_sub:
  "key ` set (limits (tree_volume_sub q (limit_volume_sub k q' t))) = key ` set (limits t)"
proof -
  let ?f = "\<lambda>l. if key l = k then l\<lparr>volume := volume l - ucast q'\<rparr> else l"
  have k: "key (?f l) = key l" for l by simp
  have "limits (tree_volume_sub q (limit_volume_sub k q' t)) = map ?f (limits t)"
    by (simp add: tree_volume_sub_def limit_volume_sub_def)
  then have "key ` set (limits (tree_volume_sub q (limit_volume_sub k q' t)))
      = (\<lambda>l. key (?f l)) ` set (limits t)"
    by (simp only: set_map image_image)
  also have "\<dots> = key ` set (limits t)" by (simp only: k)
  finally show ?thesis .
qed

lemma keys_match:
  "key ` set (limits (tree s (match_and_continue s b ptr m taker w)))
     \<subseteq> key ` set (limits (tree s w))"
  "key ` set (limits (tree s (match_exact s b ptr m taker w)))
     \<subseteq> key ` set (limits (tree s w))"
  "key ` set (limits (tree s (match_partial s b ptr m taker w)))
     \<subseteq> key ` set (limits (tree s w))"
  by (simp_all add: tree_match_and_continue_any tree_match_exact_any tree_match_partial_any
      keys_tree_remove keys_volume_sub)

text \<open>
  A taker with another price that the same levels accept leaves the same venue: the
  taker's price decides which levels it trades with and nothing else.
\<close>

lemma market_taker_price:
  "\<forall>k \<in> key ` set (limits (tree s w)). can_match s k p' = can_match s k (price taker) \<Longrightarrow>
     LimitTree_market s (taker\<lparr>price := p'\<rparr>) w
       = ((fst (LimitTree_market s taker w))\<lparr>price := p'\<rparr>, snd (LimitTree_market s taker w))"
proof (induction s taker w rule: LimitTree_market.induct)
  case (1 s taker w)
  let ?t' = "taker\<lparr>price := p'\<rparr>"
  show ?case
  proof (cases "quantity taker = 0")
    case True
    then show ?thesis by (simp add: LimitTree_market.simps [of s taker] LimitTree_market.simps [of s ?t'])
  next
    case q: False
    show ?thesis
    proof (cases "head_of_best s w")
      case None
      with q show ?thesis
        by (simp add: LimitTree_market.simps [of s taker] LimitTree_market.simps [of s ?t'])
    next
      case (Some x)
      obtain b ptr m where hb: "head_of_best s w = Some (b, ptr, m)"
        using Some by (cases x) auto
      from head_of_best_Some [OF hb] have "b \<in> set (limits (tree s w))" by simp
      with "1.prems" have cm': "can_match s (key b) p' = can_match s (key b) (price taker)"
        by simp
      show ?thesis
      proof (cases "can_match s (key b) (price taker)")
        case False
        with q hb cm' show ?thesis
          by (simp add: LimitTree_market.simps [of s taker] LimitTree_market.simps [of s ?t'])
      next
        case cm: True
        consider (more) "quantity m < quantity taker" | (exact) "quantity m = quantity taker"
          | (part) "quantity taker < quantity m" by (meson linorder_neqE)
        then show ?thesis
        proof cases
          case more
          let ?t = "taker\<lparr>quantity := quantity taker - quantity m\<rparr>"
          let ?w = "match_and_continue s b ptr m ?t w"
          have pre: "\<forall>k \<in> key ` set (limits (tree s ?w)). can_match s k p' = can_match s k (price ?t)"
            using "1.prems" keys_match(1) [of s b ptr m ?t w] by auto
          have eq: "LimitTree_market s taker w = LimitTree_market s ?t ?w"
            using q hb cm more by (subst LimitTree_market.simps) simp
          have sw: "taker\<lparr>price := p', quantity := x\<rparr> = taker\<lparr>quantity := x, price := p'\<rparr>"
            for x by (cases taker) simp
          have eq': "LimitTree_market s ?t' w = LimitTree_market s (?t\<lparr>price := p'\<rparr>) ?w"
            using q hb cm cm' more match_taker_price(1) [of s b ptr m p' ?t w]
            by (subst LimitTree_market.simps) (simp add: sw)
          from "1.IH" [of "(b, ptr, m)" b "(ptr, m)" ptr m, OF q hb _ _ _ more pre] cm eq eq'
          show ?thesis by simp
        next
          case exact
          with q hb cm cm' match_taker_price(2) [of s b ptr m p' taker w] show ?thesis
            by (simp add: LimitTree_market.simps [of s taker] LimitTree_market.simps [of s ?t'])
        next
          case part
          with q hb cm cm' match_taker_price(3) [of s b ptr m p' taker w] show ?thesis
            by (auto simp add: LimitTree_market.simps [of s taker] LimitTree_market.simps [of s ?t'])
        qed
      qed
    qed
  qed
qed

text \<open>
  Claim C3. Each of the four fill callbacks hands the resting (maker) order's price to
  \<^verbatim>\<open>fill\<close>. The matching loop trades only with the order at the head of the best level,
  in one of three steps, and after each step the maker's account and the taker's account
  are those of before, moved by \<^verbatim>\<open>fill\<close> with the traded quantity and the maker's
  price, on the maker's side and on the taker's side. The taker's price decides only
  which levels are acceptable: a taker with any other price that the same levels accept
  leaves the same book, accounts and connections.
\<close>

theorem trades_use_maker_price:
  "limit_fill ptr maker taker a = fill (side maker) (quantity maker) (price maker) (account_cancel ptr a)
   \<and> limit_partial maker taker a = fill (side maker) (quantity taker) (price maker) a
   \<and> market_fill maker taker a = fill (side taker) (quantity taker) (price maker) a
   \<and> market_partial maker taker a = fill (side taker) (quantity maker) (price maker) a
   \<and> (quantity taker \<noteq> 0 \<and> head_of_best s w = Some (b, ptr, maker)
        \<and> can_match s (key b) (price taker) \<longrightarrow>
        LimitTree_market s taker w =
          (if quantity maker < quantity taker
           then LimitTree_market s (taker\<lparr>quantity := quantity taker - quantity maker\<rparr>)
                  (match_and_continue s b ptr maker
                     (taker\<lparr>quantity := quantity taker - quantity maker\<rparr>) w)
           else if quantity maker = quantity taker
           then (taker\<lparr>quantity := 0\<rparr>, match_exact s b ptr maker taker w)
           else (taker\<lparr>quantity := 0\<rparr>, match_partial s b ptr maker taker w)))
   \<and> (quantity taker = 0 \<or> head_of_best s w = None
        \<or> (head_of_best s w = Some (b, ptr, maker) \<and> \<not> can_match s (key b) (price taker)) \<longrightarrow>
        LimitTree_market s taker w = (taker, w))
   \<and> accounts (match_and_continue s b ptr maker taker w)
       = (let f = (accounts w)
                    (account maker := fill (side maker) (quantity maker) (price maker)
                                        (account_cancel ptr (accounts w (account maker))))
          in f(account taker :=
                 fill (side taker) (quantity maker) (price maker) (f (account taker))))
   \<and> accounts (match_exact s b ptr maker taker w)
       = (let f = (accounts w)
                    (account maker := fill (side maker) (quantity maker) (price maker)
                                        (account_cancel ptr (accounts w (account maker))))
          in f(account taker :=
                 fill (side taker) (quantity taker) (price maker) (f (account taker))))
   \<and> accounts (match_partial s b ptr maker taker w)
       = (let f = (accounts w)
                    (account maker := fill (side maker) (quantity taker) (price maker)
                                        (accounts w (account maker)))
          in f(account taker :=
                 fill (side taker) (quantity taker) (price maker) (f (account taker))))
   \<and> ((\<forall>k \<in> key ` set (limits (tree s w)). can_match s k p' = can_match s k (price taker)) \<longrightarrow>
        snd (LimitTree_market s (taker\<lparr>price := p'\<rparr>) w) = snd (LimitTree_market s taker w)
        \<and> fst (LimitTree_market s (taker\<lparr>price := p'\<rparr>) w)
            = (fst (LimitTree_market s taker w))\<lparr>price := p'\<rparr>)"
proof (intro conjI impI)
  show "limit_fill ptr maker taker a
      = fill (side maker) (quantity maker) (price maker) (account_cancel ptr a)"
    "limit_partial maker taker a = fill (side maker) (quantity taker) (price maker) a"
    "market_fill maker taker a = fill (side taker) (quantity taker) (price maker) a"
    "market_partial maker taker a = fill (side taker) (quantity maker) (price maker) a"
    by (simp_all add: limit_fill_def limit_partial_def market_fill_def market_partial_def)
next
  assume "quantity taker \<noteq> 0 \<and> head_of_best s w = Some (b, ptr, maker)
      \<and> can_match s (key b) (price taker)"
  then show "LimitTree_market s taker w =
      (if quantity maker < quantity taker
       then LimitTree_market s (taker\<lparr>quantity := quantity taker - quantity maker\<rparr>)
              (match_and_continue s b ptr maker
                 (taker\<lparr>quantity := quantity taker - quantity maker\<rparr>) w)
       else if quantity maker = quantity taker
       then (taker\<lparr>quantity := 0\<rparr>, match_exact s b ptr maker taker w)
       else (taker\<lparr>quantity := 0\<rparr>, match_partial s b ptr maker taker w))"
    by (subst LimitTree_market.simps) simp
next
  assume "quantity taker = 0 \<or> head_of_best s w = None
      \<or> (head_of_best s w = Some (b, ptr, maker) \<and> \<not> can_match s (key b) (price taker))"
  then show "LimitTree_market s taker w = (taker, w)"
    by (subst LimitTree_market.simps) auto
next
  show "accounts (match_and_continue s b ptr maker taker w)
       = (let f = (accounts w)
                    (account maker := fill (side maker) (quantity maker) (price maker)
                                        (account_cancel ptr (accounts w (account maker))))
          in f(account taker :=
                 fill (side taker) (quantity maker) (price maker) (f (account taker))))"
    by (rule accounts_match_and_continue)
next
  show "accounts (match_exact s b ptr maker taker w)
       = (let f = (accounts w)
                    (account maker := fill (side maker) (quantity maker) (price maker)
                                        (account_cancel ptr (accounts w (account maker))))
          in f(account taker :=
                 fill (side taker) (quantity taker) (price maker) (f (account taker))))"
    by (rule accounts_match_exact)
next
  show "accounts (match_partial s b ptr maker taker w)
       = (let f = (accounts w)
                    (account maker := fill (side maker) (quantity taker) (price maker)
                                        (accounts w (account maker)))
          in f(account taker :=
                 fill (side taker) (quantity taker) (price maker) (f (account taker))))"
    by (rule accounts_match_partial)
next
  assume k: "\<forall>k \<in> key ` set (limits (tree s w)). can_match s k p' = can_match s k (price taker)"
  from market_taker_price [OF k]
  show "snd (LimitTree_market s (taker\<lparr>price := p'\<rparr>) w) = snd (LimitTree_market s taker w)"
    "fst (LimitTree_market s (taker\<lparr>price := p'\<rparr>) w)
       = (fst (LimitTree_market s taker w))\<lparr>price := p'\<rparr>"
    by simp_all
qed

text \<open>
  Account 2 sells 4 at the price 90 into the buy order of account 1 that rests at 100:
  4 shares trade at 100, and the capitals move by 400, not by 360. A taker at the price
  100 leaves the same venue, and against the empty sell side there is no trade.
\<close>

theorem trades_use_maker_price_witness:
  "quantity seller_at_90 \<noteq> 0
   \<and> price seller_at_90 = 90
   \<and> head_of_best Buy resting_buy
       = Some (\<lparr>key = 100, count = 1, volume = 10, queue = [1]\<rparr>, 1,
               \<lparr>uid = 1, side = Buy, quantity = 10, price = 100, account = 1\<rparr>)
   \<and> can_match Buy 100 (price seller_at_90)
   \<and> capital (accounts resting_buy 1) = 0 \<and> capital (accounts resting_buy 2) = 0
   \<and> shares (accounts resting_buy 1) = 0 \<and> shares (accounts resting_buy 2) = 0
   \<and> capital (accounts (snd (LimitTree_market Buy seller_at_90 resting_buy)) 1) = - 400
   \<and> capital (accounts (snd (LimitTree_market Buy seller_at_90 resting_buy)) 2) = 400
   \<and> shares (accounts (snd (LimitTree_market Buy seller_at_90 resting_buy)) 1) = 4
   \<and> shares (accounts (snd (LimitTree_market Buy seller_at_90 resting_buy)) 2) = - 4
   \<and> key ` set (limits (tree Buy resting_buy)) = {100}
   \<and> snd (LimitTree_market Buy (seller_at_90\<lparr>price := 100\<rparr>) resting_buy)
       = snd (LimitTree_market Buy seller_at_90 resting_buy)
   \<and> head_of_best Sell resting_buy = None
   \<and> LimitTree_market Sell seller_at_90 resting_buy = (seller_at_90, resting_buy)"
proof -
  let ?b = "\<lparr>key = 100, count = 1, volume = 10, queue = [1]\<rparr> :: Limit"
  let ?m = "\<lparr>uid = 1, side = Buy, quantity = 10, price = 100, account = 1\<rparr> :: Order"
  have t: "quantity seller_at_90 \<noteq> 0" "price seller_at_90 = 90" "side seller_at_90 = Sell"
    "account seller_at_90 = 2" "quantity seller_at_90 = 4"
    by (simp_all add: seller_at_90_def)
  have hb: "head_of_best Buy resting_buy = Some (?b, 1, ?m)" by code_simp
  have cm: "can_match Buy 100 (price seller_at_90)" by (simp add: can_match_def t)
  have z: "capital (accounts resting_buy 1) = 0" "capital (accounts resting_buy 2) = 0"
    "shares (accounts resting_buy 1) = 0" "shares (accounts resting_buy 2) = 0"
    by code_simp+
  have ks: "key ` set (limits (tree Buy resting_buy)) = {100}"
  proof -
    have "limits (tree Buy resting_buy) = [?b]" by code_simp
    then show ?thesis by simp
  qed
  have same: "\<forall>k \<in> key ` set (limits (tree Buy resting_buy)).
      can_match Buy k 100 = can_match Buy k (price seller_at_90)"
    by (simp add: ks can_match_def t)
  note tm = trades_use_maker_price [where s = Buy and w = resting_buy and taker = seller_at_90
      and b = ?b and ptr = 1 and maker = ?m and p' = 100 and a = "accounts resting_buy 1"]
  from tm t(1) hb cm
  have loop: "LimitTree_market Buy seller_at_90 resting_buy
      = (seller_at_90\<lparr>quantity := 0\<rparr>, match_partial Buy ?b 1 ?m seller_at_90 resting_buy)"
    by (simp add: t)
  from tm have acc: "accounts (match_partial Buy ?b 1 ?m seller_at_90 resting_buy)
       = (let f = (accounts resting_buy)
                    (account ?m := fill (side ?m) (quantity seller_at_90) (price ?m)
                                        (accounts resting_buy (account ?m)))
          in f(account seller_at_90 :=
                 fill (side seller_at_90) (quantity seller_at_90) (price ?m)
                   (f (account seller_at_90))))"
    by simp
  have bal: "capital (accounts (snd (LimitTree_market Buy seller_at_90 resting_buy)) 1) = - 400"
    "capital (accounts (snd (LimitTree_market Buy seller_at_90 resting_buy)) 2) = 400"
    "shares (accounts (snd (LimitTree_market Buy seller_at_90 resting_buy)) 1) = 4"
    "shares (accounts (snd (LimitTree_market Buy seller_at_90 resting_buy)) 2) = - 4"
    unfolding loop using z acc by (simp_all add: t fill_def Let_def)
  from tm same
  have ind: "snd (LimitTree_market Buy (seller_at_90\<lparr>price := 100\<rparr>) resting_buy)
       = snd (LimitTree_market Buy seller_at_90 resting_buy)"
    by simp
  have none: "head_of_best Sell resting_buy = None" by code_simp
  from trades_use_maker_price [where s = Sell and w = resting_buy and taker = seller_at_90
      and a = "accounts resting_buy 1"] none
  have idle: "LimitTree_market Sell seller_at_90 resting_buy = (seller_at_90, resting_buy)"
    by simp
  from t(1,2) hb cm z bal ks ind none idle show ?thesis by simp
qed

section \<open>Invariants across requests\<close>

lemma limit_as_limit_on: "limit a s q p w = limit_on s a q p w"
  by (cases s) (simp_all add: limit_def limit_sell_def limit_buy_def limit_on_def Let_def)

lemma market_as_market_on:
  "market a s q w =
     snd (LimitTree_market (opposite s)
            \<lparr>uid = sequence w, side = s, quantity = q, price = 0, account = a\<rparr> w)"
  by (cases s) (simp_all add: market_def market_sell_def market_buy_def)

lemma opposite_neq [simp]: "opposite s \<noteq> s" "s \<noteq> opposite s"
  by (cases s; simp)+

lemma evolves_accounts_within: "evolves w w' \<Longrightarrow> accounts_within A w \<Longrightarrow> accounts_within A w'"
  unfolding evolves_def accounts_within_def by metis

lemma evolves_sides_agree:
  assumes "evolves w w'" and "sides_agree s w"
  shows "sides_agree s w'"
  unfolding sides_agree_def
proof (intro ballI allI impI)
  fix u ord'
  assume u: "u \<in> set (queued (tree s w'))" and o: "order_map w' u = Some ord'"
  from assms(1) u have "u \<in> set (queued (tree s w))" unfolding evolves_def by blast
  moreover from assms(1) o obtain ord where "order_map w u = Some ord" "side ord' = side ord"
    unfolding evolves_def by blast
  ultimately show "side ord' = s" using assms(2) by (auto simp: sides_agree_def)
qed

lemma evolves_map_below: "evolves w w' \<Longrightarrow> map_below n w \<Longrightarrow> map_below n w'"
  unfolding evolves_def map_below_def by metis

lemma evolves_queued_below: "evolves w w' \<Longrightarrow> queued_below n w \<Longrightarrow> queued_below n w'"
  unfolding evolves_def queued_below_def by blast

lemma evolves_book_inv:
  assumes "evolves w w'" and "book_inv A w"
  shows "book_inv A w'"
proof -
  have sq: "sequence w' = sequence w" using assms(1) by (simp add: evolves_def)
  from assms(2) have "accounts_within A w" "sides_agree Sell w" "sides_agree Buy w"
    "map_below (sequence w) w" "queued_below (sequence w) w"
    by (simp_all add: book_inv_def)
  then show ?thesis
    unfolding book_inv_def sq
    by (intro conjI evolves_accounts_within [OF assms(1)] evolves_sides_agree [OF assms(1)]
        evolves_map_below [OF assms(1)] evolves_queued_below [OF assms(1)])
qed

subsection \<open>Resting an order\<close>

lemma order_map_LimitTree_limit [simp]:
  "order_map (LimitTree_limit s ptr ord w) = order_map w"
  by (simp add: LimitTree_limit_def)

lemma sequence_LimitTree_limit [simp]:
  "sequence (LimitTree_limit s ptr ord w) = sequence w"
  by (simp add: LimitTree_limit_def)

lemma tree_update_account_any [simp]: "tree s' (update_account a f w) = tree s' w"
  by (cases s') (simp_all add: tree_def update_account_def)

lemma tree_LimitTree_limit:
  "tree s' (LimitTree_limit s ptr ord w)
     = (if s' = s then tree_limit ptr ord (tree s w) else tree s' w)"
  by (simp add: LimitTree_limit_def tree_set_tree_other)

lemma tree_LimitTree_cancel:
  "tree s' (LimitTree_cancel s ptr ord w)
     = (if s' = s then tree_remove (price ord) ptr (quantity ord) (tree s w) else tree s' w)"
  by (simp add: LimitTree_cancel_def tree_set_tree_other)

lemma set_queued_tree_limit: "set (queued (tree_limit ptr ord t)) \<subseteq> insert ptr (set (queued t))"
proof -
  have a: "set (concat (map queue (insort_key key (new_limit ptr ord) ls)))
        \<subseteq> insert ptr (set (concat (map queue ls)))" for ls
    by (auto simp: set_insort_key new_limit_def)
  have b: "set (concat (map queue (map (\<lambda>l. if key l = k then limit_append ptr ord l else l) ls)))
        \<subseteq> insert ptr (set (concat (map queue ls)))" for ls k
    by (induction ls) (auto simp: limit_append_def)
  show ?thesis
  proof (cases "find_limit (price ord) t")
    case None
    then have "queued (tree_limit ptr ord t)
        = concat (map queue (insort_key key (new_limit ptr ord) (limits t)))"
      by (simp add: queued_def tree_limit_def)
    with a [of "limits t"] show ?thesis by (simp only: queued_def)
  next
    case (Some l)
    then have "queued (tree_limit ptr ord t)
        = concat (map queue (map (\<lambda>l. if key l = price ord then limit_append ptr ord l else l)
            (limits t)))"
      by (simp add: queued_def tree_limit_def del: map_map)
    with b [of "price ord" "limits t"] show ?thesis by (simp only: queued_def)
  qed
qed

lemma totals_LimitTree_limit:
  "total_shares A (LimitTree_limit s ptr ord w) = total_shares A w"
  "total_capital A (LimitTree_limit s ptr ord w) = total_capital A w"
proof -
  have "shares (accounts (LimitTree_limit s ptr ord w) b) = shares (accounts w b)"
    "capital (accounts (LimitTree_limit s ptr ord w) b) = capital (accounts w b)" for b
    by (simp_all add: LimitTree_limit_def update_account_def account_limit_def)
  then show "total_shares A (LimitTree_limit s ptr ord w) = total_shares A w"
    "total_capital A (LimitTree_limit s ptr ord w) = total_capital A w"
    by (simp_all add: total_shares_def total_capital_def)
qed

lemma totals_sequence_update [simp]:
  "total_shares A (w\<lparr>sequence := n\<rparr>) = total_shares A w"
  "total_capital A (w\<lparr>sequence := n\<rparr>) = total_capital A w"
  "total_shares A (w\<lparr>order_map := om\<rparr>) = total_shares A w"
  "total_capital A (w\<lparr>order_map := om\<rparr>) = total_capital A w"
  "total_shares A (erase u w) = total_shares A w"
  "total_capital A (erase u w) = total_capital A w"
  by (simp_all add: total_shares_def total_capital_def)

text \<open>
  Resting the order stored under the counter value \<open>sq\<close> and advancing the counter
  re-establishes the invariant.
\<close>

lemma rest_book_inv:
  assumes aw: "accounts_within A w" and ss: "sides_agree Sell w" and sb: "sides_agree Buy w"
    and mb: "map_below (sq + 1) w" and qb: "queued_below sq w"
    and at: "order_map w sq = Some ord'" and sd: "side ord' = s" and lt: "sq < sq + 1"
  shows "book_inv A ((LimitTree_limit s sq ord w)\<lparr>sequence := sq + 1\<rparr>)"
proof -
  let ?w = "(LimitTree_limit s sq ord w)\<lparr>sequence := sq + 1\<rparr>"
  have om: "order_map ?w = order_map w" by simp
  have q: "set (queued (tree s' ?w)) \<subseteq> insert sq (set (queued (tree s' w)))" for s'
    using set_queued_tree_limit [of sq ord "tree s w"]
    by (auto simp: tree_LimitTree_limit split: if_splits)
  have sides: "sides_agree s' ?w" if "sides_agree s' w" for s'
    unfolding sides_agree_def
  proof (intro ballI allI impI)
    fix u o'
    assume u: "u \<in> set (queued (tree s' ?w))" and o: "order_map ?w u = Some o'"
    show "side o' = s'"
    proof (cases "u \<in> set (queued (tree s' w))")
      case True
      with that o show ?thesis by (auto simp: sides_agree_def)
    next
      case False
      with u q [of s'] have usq: "u = sq" by auto
      with o at have "o' = ord'" by simp
      moreover have "s' = s"
      proof (rule ccontr)
        assume "s' \<noteq> s"
        then have "tree s' ?w = tree s' w" by (simp add: tree_LimitTree_limit)
        with u False show False by simp
      qed
      ultimately show ?thesis using sd by simp
    qed
  qed
  have "queued_below (sq + 1) ?w"
    unfolding queued_below_def
  proof (intro allI ballI)
    fix s' u
    assume "u \<in> set (queued (tree s' ?w))"
    with q [of s'] have "u = sq \<or> u \<in> set (queued (tree s' w))" by auto
    then show "u < sq + 1"
    proof
      assume "u = sq"
      with lt show ?thesis by simp
    next
      assume "u \<in> set (queued (tree s' w))"
      with qb have "u < sq" by (auto simp: queued_below_def)
      then show ?thesis using lt by (rule less_trans)
    qed
  qed
  moreover have "map_below (sq + 1) ?w" using mb by (simp add: map_below_def)
  moreover have "accounts_within A ?w" using aw by (simp add: accounts_within_def)
  ultimately show ?thesis using sides [OF ss] sides [OF sb] by (simp add: book_inv_def)
qed

subsection \<open>One limit order\<close>

lemma limit_on_step:
  assumes fin: "finite A" and a: "a \<in> A" and inv: "book_inv A w"
    and lt: "sequence w < sequence w + 1"
  shows "book_inv A (snd (limit_on s a q p w))
       \<and> total_shares A (snd (limit_on s a q p w)) = total_shares A w
       \<and> total_capital A (snd (limit_on s a q p w)) = total_capital A w"
proof -
  define sq where "sq = sequence w"
  define new where "new = \<lparr>uid = sq, side = s, quantity = q, price = p, account = a\<rparr>"
  define w1 where "w1 = w\<lparr>order_map := (order_map w)(sq \<mapsto> new)\<rparr>"
  from inv have aw: "accounts_within A w" and sd: "\<And>s'. sides_agree s' w"
    and mb: "map_below sq w" and qb: "queued_below sq w"
    unfolding book_inv_def sq_def by (auto intro: Side.exhaust) (metis Side.exhaust)+
  have lt': "sq < sq + 1" using lt by (simp add: sq_def)
  have fresh: "order_map w sq = None"
  proof (cases "order_map w sq")
    case (Some ord)
    with mb have "sq < sq" by (auto simp: map_below_def)
    then show ?thesis by simp
  qed simp
  then have ao: "at_or (order_map w) sq new = new"
    and em: "emplace sq new (order_map w) = (order_map w)(sq \<mapsto> new)"
    by (simp_all add: at_or_def emplace_def)
  have notq: "u \<noteq> sq" if "u \<in> set (queued (tree s' w))" for u s'
    using qb that by (auto simp: queued_below_def)
  have aw1: "accounts_within A w1"
    using aw a by (auto simp: accounts_within_def w1_def new_def)
  have sd1: "sides_agree s' w1" for s'
    using sd [of s'] notq [of _ s'] by (auto simp: sides_agree_def w1_def)
  have mb1: "map_below (sq + 1) w1"
    unfolding map_below_def
  proof (intro allI impI)
    fix u ord
    assume "order_map w1 u = Some ord"
    then have "u = sq \<or> order_map w u = Some ord" by (auto simp: w1_def split: if_splits)
    then show "u < sq + 1"
    proof
      assume "u = sq" with lt' show ?thesis by simp
    next
      assume "order_map w u = Some ord"
      with mb have "u < sq" by (auto simp: map_below_def)
      then show ?thesis using lt' by (rule less_trans)
    qed
  qed
  have qb1: "queued_below sq w1" using qb by (simp add: queued_below_def w1_def)
  have tot1: "total_shares A w1 = total_shares A w" "total_capital A w1 = total_capital A w"
    by (simp_all add: w1_def)
  have sq1: "sequence w1 = sq" by (simp add: w1_def sq_def)
  show ?thesis
  proof (cases "crosses s p w1")
    case False
    then have eq: "limit_on s a q p w = (sq, (LimitTree_limit s sq new w1)\<lparr>sequence := sq + 1\<rparr>)"
      by (simp add: limit_on_def Let_def ao em sq_def [symmetric] new_def [symmetric]
          w1_def [symmetric])
    have "book_inv A ((LimitTree_limit s sq new w1)\<lparr>sequence := sq + 1\<rparr>)"
      by (rule rest_book_inv [OF aw1 sd1 sd1 mb1 qb1 _ _ lt', of new])
        (simp_all add: w1_def new_def)
    then show ?thesis by (simp add: eq totals_LimitTree_limit tot1)
  next
    case True
    obtain order' w2 where mk: "LimitTree_market (opposite s) new w1 = (order', w2)"
      by (cases "LimitTree_market (opposite s) new w1") auto
    from market_evolves [of w1 "opposite s" new] mk
    have ev: "evolves w1 w2" and "\<exists>q'. order' = new\<lparr>quantity := q'\<rparr>" by simp_all
    then have o': "side order' = s" "account order' = a" by (auto simp: new_def)
    define w3 where "w3 = w2\<lparr>order_map := (order_map w2)(sq \<mapsto> order')\<rparr>"
    have tot2: "total_shares A w2 = total_shares A w" "total_capital A w2 = total_capital A w"
      using market_totals [OF fin, of new "opposite s" w1] mk aw1 sd1 [of "opposite s"] a tot1
      by (simp_all add: new_def)
    have sq2: "sequence w2 = sq" using ev sq1 by (simp add: evolves_def)
    have aw2: "accounts_within A w2" by (rule evolves_accounts_within [OF ev aw1])
    have sd2: "sides_agree s' w2" for s' by (rule evolves_sides_agree [OF ev sd1])
    have mb2: "map_below (sq + 1) w2" by (rule evolves_map_below [OF ev mb1])
    have qb2: "queued_below sq w2" by (rule evolves_queued_below [OF ev qb1])
    have notq2: "u \<noteq> sq" if "u \<in> set (queued (tree s' w2))" for u s'
      using qb2 that by (auto simp: queued_below_def)
    have aw3: "accounts_within A w3"
      using aw2 a o' by (auto simp: accounts_within_def w3_def)
    have sd3: "sides_agree s' w3" for s'
      using sd2 [of s'] notq2 [of _ s'] by (auto simp: sides_agree_def w3_def)
    have qb3: "queued_below sq w3" using qb2 by (simp add: queued_below_def w3_def)
    have mb3: "map_below (sq + 1) w3"
      using mb2 lt' by (auto simp: map_below_def w3_def)
    have tot3: "total_shares A w3 = total_shares A w" "total_capital A w3 = total_capital A w"
      using tot2 by (simp_all add: w3_def)
    have unfold: "limit_on s a q p w =
        (if quantity order' = 0 then (0, erase sq w3)
         else (sq, (LimitTree_limit s sq order' w3)\<lparr>sequence := sq + 1\<rparr>))"
      using True mk
      by (simp add: limit_on_def Let_def ao em sq_def [symmetric] new_def [symmetric]
          w1_def [symmetric] w3_def [symmetric])
    show ?thesis
    proof (cases "quantity order' = 0")
      case True
      have "map_below sq (erase sq w3)"
        unfolding map_below_def
      proof (intro allI impI)
        fix u ord
        assume "order_map (erase sq w3) u = Some ord"
        then have u: "u \<noteq> sq" and "order_map w2 u = Some ord"
          by (auto simp: w3_def split: if_splits)
        with ev obtain ord1 where "order_map w1 u = Some ord1" unfolding evolves_def by blast
        with u have "order_map w u = Some ord1" by (simp add: w1_def)
        with mb show "u < sq" by (auto simp: map_below_def)
      qed
      moreover have "accounts_within A (erase sq w3)"
        using aw3 by (auto simp: accounts_within_def split: if_splits)
      moreover have "sides_agree s' (erase sq w3)" for s'
        using sd3 [of s'] by (auto simp: sides_agree_def split: if_splits)
      moreover have "queued_below sq (erase sq w3)"
        using qb3 by (simp add: queued_below_def)
      moreover have "sequence (erase sq w3) = sq" by (simp add: w3_def sq2)
      ultimately have "book_inv A (erase sq w3)" by (simp add: book_inv_def)
      with True show ?thesis by (simp add: unfold tot3)
    next
      case False
      have "book_inv A ((LimitTree_limit s sq order' w3)\<lparr>sequence := sq + 1\<rparr>)"
        by (rule rest_book_inv [OF aw3 sd3 sd3 mb3 qb3 _ _ lt', of order'])
          (simp_all add: w3_def o')
      with False show ?thesis by (simp add: unfold totals_LimitTree_limit tot3)
    qed
  qed
qed

subsection \<open>Cancel and reduce\<close>

text \<open>
  \<^verbatim>\<open>cancel\<close> and \<^verbatim>\<open>reduce\<close> move no balance, take entries out of the uid map or
  change their quantity, and put no pointer into a queue.
\<close>

lemma balances_cancel:
  assumes "cancel order_id w = Inr w'"
  shows "shares (accounts w' b) = shares (accounts w b)"
    and "capital (accounts w' b) = capital (accounts w b)"
  using assms
  by (auto simp: cancel_def LimitTree_cancel_def update_account_def account_cancel_def
      split: option.splits)

lemma balances_reduce:
  assumes "reduce order_id q w = Inr w'"
  shows "shares (accounts w' b) = shares (accounts w b)"
    and "capital (accounts w' b) = capital (accounts w b)"
  using assms
  by (auto simp: reduce_def Let_def LimitTree_cancel_def update_account_def account_cancel_def
      split: option.splits if_splits)

lemma totals_cancel:
  assumes "cancel order_id w = Inr w'"
  shows "total_shares A w' = total_shares A w" and "total_capital A w' = total_capital A w"
  using balances_cancel [OF assms] by (simp_all add: total_shares_def total_capital_def)

lemma totals_reduce:
  assumes "reduce order_id q w = Inr w'"
  shows "total_shares A w' = total_shares A w" and "total_capital A w' = total_capital A w"
  using balances_reduce [OF assms] by (simp_all add: total_shares_def total_capital_def)

lemma evolves_removed:
  assumes "order_map w order_id = Some ord"
  shows "evolves w (erase order_id (LimitTree_cancel s order_id ord' w))"
  unfolding evolves_def
proof (intro conjI allI impI)
  show "sequence (erase order_id (LimitTree_cancel s order_id ord' w)) = sequence w"
    by (simp add: LimitTree_cancel_def)
next
  fix u o'
  assume "order_map (erase order_id (LimitTree_cancel s order_id ord' w)) u = Some o'"
  then have "order_map w u = Some o'"
    by (simp add: LimitTree_cancel_def split: if_splits)
  then show "\<exists>ord. order_map w u = Some ord \<and> side o' = side ord \<and> account o' = account ord"
    by simp
next
  fix s'
  show "set (queued (tree s' (erase order_id (LimitTree_cancel s order_id ord' w))))
      \<subseteq> set (queued (tree s' w))"
    using set_queued_tree_remove by (simp add: tree_LimitTree_cancel)
qed

lemma cancel_evolves:
  assumes "cancel order_id w = Inr w'"
  shows "evolves w w'"
  using assms evolves_removed by (auto simp: cancel_def split: option.splits)

lemma evolves_reduced:
  assumes "order_map w order_id = Some ord"
  shows "evolves w
    (set_tree (side ord)
       (tree_volume_sub q (limit_volume_sub (price ord) q (tree (side ord) w)))
       (w\<lparr>order_map := (order_map w)(order_id \<mapsto> ord\<lparr>quantity := quantity ord - q\<rparr>)\<rparr>))"
  unfolding evolves_def using assms
  by (auto simp: tree_set_tree_other split: if_splits)

lemma reduce_evolves:
  assumes "reduce order_id q w = Inr w'"
  shows "evolves w w'"
proof -
  from assms obtain ord where o: "order_map w order_id = Some ord" and q: "\<not> quantity ord < q"
    by (auto simp: reduce_def split: option.splits if_splits)
  let ?o = "ord\<lparr>quantity := quantity ord - q\<rparr>"
  let ?w3 = "set_tree (side ord)
       (tree_volume_sub q (limit_volume_sub (price ord) q (tree (side ord) w)))
       (w\<lparr>order_map := (order_map w)(order_id \<mapsto> ?o)\<rparr>)"
  have w3: "reduce order_id q w
      = (if quantity ?o = 0 then Inr (erase order_id (LimitTree_cancel (side ord) order_id ?o ?w3))
         else Inr ?w3)"
    using o q by (simp add: reduce_def Let_def tree_set_tree_other)
  have e3: "evolves w ?w3" by (rule evolves_reduced [OF o])
  show ?thesis
  proof (cases "quantity ?o = 0")
    case False
    with w3 assms e3 show ?thesis by simp
  next
    case True
    have "order_map ?w3 order_id = Some ?o" by simp
    from evolves_removed [OF this, of "side ord" ?o] e3 True w3 assms
    show ?thesis using evolves_trans by auto
  qed
qed

lemma cancel_step:
  assumes "book_inv A w" and "cancel order_id w = Inr w'"
  shows "book_inv A w' \<and> total_shares A w' = total_shares A w
       \<and> total_capital A w' = total_capital A w \<and> sequence w' = sequence w"
  using evolves_book_inv [OF cancel_evolves [OF assms(2)] assms(1)] totals_cancel [OF assms(2)]
    cancel_evolves [OF assms(2)]
  by (simp add: evolves_def)

lemma reduce_step:
  assumes "book_inv A w" and "reduce order_id q w = Inr w'"
  shows "book_inv A w' \<and> total_shares A w' = total_shares A w
       \<and> total_capital A w' = total_capital A w \<and> sequence w' = sequence w"
  using evolves_book_inv [OF reduce_evolves [OF assms(2)] assms(1)] totals_reduce [OF assms(2)]
    reduce_evolves [OF assms(2)]
  by (simp add: evolves_def)

subsection \<open>Sequences of requests\<close>

lemma run_limit:
  "run (LimitRequest a s q p # rs) w =
     (fst (limit_on s a q p w) # fst (run rs (snd (limit_on s a q p w))),
      snd (run rs (snd (limit_on s a q p w))))"
  by (simp add: limit_as_limit_on split_beta)

lemma sequence_market [simp]: "sequence (snd (LimitTree_market s taker w)) = sequence w"
  using market_evolves [of w s taker] by (simp add: evolves_def)

lemma limit_on_uid:
  "(fst (limit_on s a q p w) = 0
      \<and> sequence (snd (limit_on s a q p w)) = sequence w
      \<and> order_map (snd (limit_on s a q p w)) (sequence w) = None)
   \<or> (fst (limit_on s a q p w) = sequence w
      \<and> sequence (snd (limit_on s a q p w)) = sequence w + 1
      \<and> (\<exists>ord. order_map (snd (limit_on s a q p w)) (sequence w) = Some ord))"
proof -
  define new where "new = \<lparr>uid = sequence w, side = s, quantity = q, price = p, account = a\<rparr>"
  define order where "order = at_or (order_map w) (sequence w) new"
  define w1 where "w1 = w\<lparr>order_map := emplace (sequence w) new (order_map w)\<rparr>"
  have present: "\<exists>ord. order_map w1 (sequence w) = Some ord"
    by (cases "order_map w (sequence w)") (simp_all add: w1_def emplace_def)
  show ?thesis
  proof (cases "crosses s p w1")
    case False
    then have "limit_on s a q p w
        = (sequence w, (LimitTree_limit s (sequence w) order w1)\<lparr>sequence := sequence w + 1\<rparr>)"
      by (simp add: limit_on_def Let_def new_def [symmetric] order_def [symmetric]
          w1_def [symmetric])
    with present show ?thesis by simp
  next
    case True
    obtain order' w2 where mk: "LimitTree_market (opposite s) order w1 = (order', w2)"
      by (cases "LimitTree_market (opposite s) order w1") auto
    then have "sequence w2 = sequence w1"
      using sequence_market [of "opposite s" order w1] by simp
    then have sq2: "sequence w2 = sequence w" by (simp add: w1_def)
    from True mk have "limit_on s a q p w =
        (if quantity order' = 0
         then (0, erase (sequence w) (w2\<lparr>order_map := (order_map w2)(sequence w \<mapsto> order')\<rparr>))
         else (sequence w,
               (LimitTree_limit s (sequence w) order'
                  (w2\<lparr>order_map := (order_map w2)(sequence w \<mapsto> order')\<rparr>))
                 \<lparr>sequence := sequence w + 1\<rparr>))"
      by (simp add: limit_on_def Let_def new_def [symmetric] order_def [symmetric]
          w1_def [symmetric])
    then show ?thesis by (simp add: sq2)
  qed
qed

lemma word_succ_less:
  fixes x :: "64 word"
  assumes "unat x + 1 < 2 ^ 64"
  shows "x < x + 1" and "unat (x + 1) = unat x + 1"
proof -
  have "unat x + unat (1 :: 64 word) < 2 ^ LENGTH(64)" using assms by simp
  then have "unat (x + 1) = unat x + unat (1 :: 64 word)" by (simp only: unat_add_lem)
  then show "unat (x + 1) = unat x + 1" by simp
  then show "x < x + 1" by (simp add: word_less_nat_alt)
qed

lemma market_step:
  assumes fin: "finite A" and a: "a \<in> A" and inv: "book_inv A w"
  shows "book_inv A (market a s q w)
       \<and> total_shares A (market a s q w) = total_shares A w
       \<and> total_capital A (market a s q w) = total_capital A w
       \<and> sequence (market a s q w) = sequence w"
proof -
  let ?t = "\<lparr>uid = sequence w, side = s, quantity = q, price = 0, account = a\<rparr>"
  have ev: "evolves w (market a s q w)"
    using market_evolves [of w "opposite s" ?t] by (simp add: market_as_market_on)
  from inv have "accounts_within A w" "sides_agree (opposite s) w"
    by (cases s; simp add: book_inv_def)+
  then have "total_shares A (market a s q w) = total_shares A w
      \<and> total_capital A (market a s q w) = total_capital A w"
    using market_totals [OF fin, of ?t "opposite s" w] a by (simp add: market_as_market_on)
  with evolves_book_inv [OF ev inv] show ?thesis by (simp add: market_as_market_on)
qed

lemma run_invariant:
  assumes fin: "finite A"
  shows "book_inv A w \<Longrightarrow> \<forall>r \<in> set rs. request_accounts r \<subseteq> A \<Longrightarrow>
     unat (sequence w) + length rs < 2 ^ 64 \<Longrightarrow>
     book_inv A (snd (run rs w))
     \<and> total_shares A (snd (run rs w)) = total_shares A w
     \<and> total_capital A (snd (run rs w)) = total_capital A w"
proof (induction rs arbitrary: w)
  case Nil
  then show ?case by simp
next
  case (Cons r rs)
  show ?case
  proof (cases r)
    case (LimitRequest a s q p)
    obtain u w1 where l: "limit_on s a q p w = (u, w1)" by (cases "limit_on s a q p w") auto
    from Cons.prems(3) have "unat (sequence w) + 1 < 2 ^ 64" by simp
    from word_succ_less [OF this] have lt: "sequence w < sequence w + 1"
      and un: "unat (sequence w + 1) = unat (sequence w) + 1" by simp_all
    from Cons.prems(2) LimitRequest have a: "a \<in> A" by simp
    from limit_on_step [OF fin a Cons.prems(1) lt, of s q p] l
    have inv1: "book_inv A w1" and tot: "total_shares A w1 = total_shares A w"
      "total_capital A w1 = total_capital A w" by simp_all
    from limit_on_uid [of s a q p w] l
    have "sequence w1 = sequence w \<or> sequence w1 = sequence w + 1" by auto
    with un have "unat (sequence w1) \<le> unat (sequence w) + 1" by auto
    with Cons.prems(3) have "unat (sequence w1) + length rs < 2 ^ 64" by simp
    from Cons.IH [OF inv1 _ this] Cons.prems(2) tot
    have "book_inv A (snd (run rs w1))
        \<and> total_shares A (snd (run rs w1)) = total_shares A w
        \<and> total_capital A (snd (run rs w1)) = total_capital A w" by simp
    then show ?thesis
      using LimitRequest l by (simp add: run_limit del: run.simps)
  next
    case (MarketRequest a s q)
    from Cons.prems(2) MarketRequest have a: "a \<in> A" by simp
    from market_step [OF fin a Cons.prems(1), of s q]
    have inv1: "book_inv A (market a s q w)"
      and tot: "total_shares A (market a s q w) = total_shares A w"
      "total_capital A (market a s q w) = total_capital A w"
      and sq: "sequence (market a s q w) = sequence w" by simp_all
    from Cons.prems(3) sq have "unat (sequence (market a s q w)) + length rs < 2 ^ 64" by simp
    from Cons.IH [OF inv1 _ this] Cons.prems(2) tot
    show ?thesis using MarketRequest by simp
  next
    case (CancelRequest order_id)
    from Cons.prems(3) have n: "unat (sequence w) + length rs < 2 ^ 64" by simp
    show ?thesis
    proof (cases "cancel order_id w")
      case (Inl e)
      from Cons.IH [OF Cons.prems(1) _ n] Cons.prems(2)
      show ?thesis using CancelRequest Inl by simp
    next
      case (Inr w1)
      from cancel_step [OF Cons.prems(1) Inr]
      have inv1: "book_inv A w1" and tot: "total_shares A w1 = total_shares A w"
        "total_capital A w1 = total_capital A w" and sq: "sequence w1 = sequence w"
        by simp_all
      from n sq have "unat (sequence w1) + length rs < 2 ^ 64" by simp
      from Cons.IH [OF inv1 _ this] Cons.prems(2) tot
      show ?thesis using CancelRequest Inr by simp
    qed
  next
    case (ReduceRequest order_id q)
    from Cons.prems(3) have n: "unat (sequence w) + length rs < 2 ^ 64" by simp
    show ?thesis
    proof (cases "reduce order_id q w")
      case (Inl e)
      from Cons.IH [OF Cons.prems(1) _ n] Cons.prems(2)
      show ?thesis using ReduceRequest Inl by simp
    next
      case (Inr w1)
      from reduce_step [OF Cons.prems(1) Inr]
      have inv1: "book_inv A w1" and tot: "total_shares A w1 = total_shares A w"
        "total_capital A w1 = total_capital A w" and sq: "sequence w1 = sequence w"
        by simp_all
      from n sq have "unat (sequence w1) + length rs < 2 ^ 64" by simp
      from Cons.IH [OF inv1 _ this] Cons.prems(2) tot
      show ?thesis using ReduceRequest Inr by simp
    qed
  qed
qed

lemma book_inv_new_book: "book_inv A (new_book accts conns)"
  by (simp add: book_inv_def accounts_within_def sides_agree_def map_below_def
      queued_below_def new_book_def tree_def queued_def empty_tree_def split: Side.split)

lemma of_int_exact:
  "word_of_int (exact_shares A w) = total_shares A w"
  "word_of_int (exact_capital A w) = total_capital A w"
  by (simp_all add: exact_shares_def exact_capital_def total_shares_def total_capital_def)

lemma exact_mod:
  fixes x y :: int
  assumes "(word_of_int x :: 64 word) = word_of_int y"
  shows "x mod 2 ^ 64 = y mod 2 ^ 64"
  using assms by (simp add: word_of_int_eq_iff take_bit_eq_mod)

text \<open>
  Claim C1, as stated, fails: the balances are 64-bit and wrap. \<^verbatim>\<open>fill\<close> of one share
  at the price \<open>2 ^ 63\<close> takes a capital of 0 to \<open>0 + 2 ^ 63\<close> on the sell side and to
  \<open>0 - 2 ^ 63\<close> on the buy side, which as \<^verbatim>\<open>int64_t\<close> is the same value \<open>- 2 ^ 63\<close>.
  So when account 1 offers 2 shares at the price \<open>2 ^ 63\<close> and account 2 buys one of
  them with a market order, the two capitals do not move with opposite signs, and their
  sum goes from 0 to \<open>- 2 ^ 64\<close>.
\<close>

theorem capital_sum_wraps_counterexample:
  "sint (capital (fill Sell 1 (2 ^ 63) (plain_accounts 1))) = - (2 ^ 63)
   \<and> sint (capital (fill Buy 1 (2 ^ 63) (plain_accounts 2))) = - (2 ^ 63)
   \<and> exact_capital {1, 2} (new_book plain_accounts no_connections) = 0
   \<and> sint (capital (accounts (snd (run wrapping_requests
             (new_book plain_accounts no_connections))) 1)) = - (2 ^ 63)
   \<and> sint (capital (accounts (snd (run wrapping_requests
             (new_book plain_accounts no_connections))) 2)) = - (2 ^ 63)
   \<and> exact_capital {1, 2} (snd (run wrapping_requests
         (new_book plain_accounts no_connections))) = - (2 ^ 64)
   \<and> exact_shares {1, 2} (snd (run wrapping_requests
         (new_book plain_accounts no_connections))) = 0"
proof -
  have z: "exact_capital {1, 2} (new_book plain_accounts no_connections) = 0"
    by (simp add: exact_capital_def new_book_def plain_accounts_def new_account_def)
  have c: "sint (capital (accounts (snd (run wrapping_requests
             (new_book plain_accounts no_connections))) 1)) = - (2 ^ 63)"
    "sint (capital (accounts (snd (run wrapping_requests
             (new_book plain_accounts no_connections))) 2)) = - (2 ^ 63)"
    "sint (shares (accounts (snd (run wrapping_requests
             (new_book plain_accounts no_connections))) 1)) = - 1"
    "sint (shares (accounts (snd (run wrapping_requests
             (new_book plain_accounts no_connections))) 2)) = 1"
    by code_simp+
  have f: "sint (capital (fill Sell 1 (2 ^ 63) (plain_accounts 1))) = - (2 ^ 63)"
    "sint (capital (fill Buy 1 (2 ^ 63) (plain_accounts 2))) = - (2 ^ 63)"
    by code_simp+
  from z c f show ?thesis by (simp add: exact_capital_def exact_shares_def)
qed

text \<open>
  Claim C1, amended. Over every sequence of limit, market, cancel and reduce requests
  the sum of the share balances and the sum of the capital balances of all accounts stay
  what they were in the 64-bit arithmetic of the balances; read as integers, the sums
  stay what they were modulo \<open>2 ^ 64\<close>. The two updates of a fill, of the same quantity
  at the same price on opposite sides, cancel in that arithmetic. \<open>A\<close> is the finite set
  of all accounts: it holds the owner of every order of the book and of every request.
  The book satisfies the invariant \<open>book_inv\<close>, which a new book has and every request
  preserves (\<open>run_invariant\<close>), and the uid counter does not wrap.
\<close>

theorem shares_and_capital_conserved:
  assumes "finite A" and "book_inv A w" and "\<forall>r \<in> set rs. request_accounts r \<subseteq> A"
    and "unat (sequence w) + length rs < 2 ^ 64"
  shows "total_shares A (snd (run rs w)) = total_shares A w
       \<and> total_capital A (snd (run rs w)) = total_capital A w
       \<and> exact_shares A (snd (run rs w)) mod 2 ^ 64 = exact_shares A w mod 2 ^ 64
       \<and> exact_capital A (snd (run rs w)) mod 2 ^ 64 = exact_capital A w mod 2 ^ 64
       \<and> (shares (fill s q p x) - shares x) + (shares (fill (opposite s) q p y) - shares y) = 0
       \<and> (capital (fill s q p x) - capital x)
           + (capital (fill (opposite s) q p y) - capital y) = 0"
proof -
  from run_invariant [OF assms]
  have t: "total_shares A (snd (run rs w)) = total_shares A w"
    "total_capital A (snd (run rs w)) = total_capital A w" by simp_all
  have "exact_shares A (snd (run rs w)) mod 2 ^ 64 = exact_shares A w mod 2 ^ 64"
    by (rule exact_mod) (simp add: of_int_exact t)
  moreover have "exact_capital A (snd (run rs w)) mod 2 ^ 64 = exact_capital A w mod 2 ^ 64"
    by (rule exact_mod) (simp add: of_int_exact t)
  moreover have "(shares (fill s q p x) - shares x)
      + (shares (fill (opposite s) q p y) - shares y) = 0"
    "(capital (fill s q p x) - capital x)
      + (capital (fill (opposite s) q p y) - capital y) = 0"
    by (cases s; simp add: fill_def)+
  ultimately show ?thesis using t by simp
qed

text \<open>
  Three accounts trade with limit and market orders, one order is reduced and one
  canceled; the sums stay 0.
\<close>

theorem shares_and_capital_conserved_witness:
  "finite {1, 2, 3 :: account_ref}
   \<and> book_inv {1, 2, 3} (new_book plain_accounts no_connections)
   \<and> total_shares {1, 2, 3} (snd (run three_requests (new_book plain_accounts no_connections))) = 0
   \<and> total_capital {1, 2, 3} (snd (run three_requests (new_book plain_accounts no_connections))) = 0
   \<and> exact_capital {1, 2, 3} (snd (run three_requests (new_book plain_accounts no_connections)))
       mod 2 ^ 64 = 0
   \<and> shares (accounts (snd (run three_requests (new_book plain_accounts no_connections))) 2) = 5
   \<and> capital (accounts (snd (run three_requests (new_book plain_accounts no_connections))) 2) = - 520"
proof -
  have r: "\<forall>r \<in> set three_requests. request_accounts r \<subseteq> {1, 2, 3}"
    by (simp add: three_requests_def)
  have n: "unat (sequence (new_book plain_accounts no_connections)) + length three_requests < 2 ^ 64"
    by (simp add: new_book_def three_requests_def)
  have z: "total_shares {1, 2, 3} (new_book plain_accounts no_connections) = 0"
    "total_capital {1, 2, 3} (new_book plain_accounts no_connections) = 0"
    "exact_capital {1, 2, 3} (new_book plain_accounts no_connections) = 0"
    by (simp_all add: total_shares_def total_capital_def exact_capital_def new_book_def
        plain_accounts_def new_account_def)
  have e: "shares (accounts (snd (run three_requests (new_book plain_accounts no_connections))) 2) = 5"
    "capital (accounts (snd (run three_requests (new_book plain_accounts no_connections))) 2) = - 520"
    by code_simp+
  show ?thesis
    using shares_and_capital_conserved [OF _ book_inv_new_book r n,
        of Sell 0 0 "plain_accounts 0" "plain_accounts 0"] z e
    by (simp add: book_inv_new_book)
qed

section \<open>Allocation of order uids\<close>

text \<open>
  Claim C2, as stated, fails: the counter is not advanced on the path that returns 0,
  so the uid of a fully consumed order is handed to the next order that rests. After one
  resting buy (uid 1, counter 2) a sell is fully consumed and returns 0 with the counter
  still 2; the next buy rests under uid 2. The uids returned are 1, 0, 2: no gap.
\<close>

theorem limit_uid_reused_counterexample:
  "fst (limit_sell 2 10 100 resting_buy) = 0
   \<and> sequence resting_buy = 2
   \<and> sequence (snd (limit_sell 2 10 100 resting_buy)) = 2
   \<and> fst (limit_buy 1 5 100 (snd (limit_sell 2 10 100 resting_buy))) = 2
   \<and> fst (run consumed_requests (new_book session_accounts session_connections)) = [1, 0, 2]"
  by code_simp

lemma run_uids:
  "sequence w \<noteq> 0 \<Longrightarrow> unat (sequence w) + length rs < 2 ^ 64 \<Longrightarrow>
   filter (\<lambda>u. u \<noteq> 0) (fst (run rs w))
     = map of_nat [unat (sequence w) ..< unat (sequence (snd (run rs w)))]
   \<and> unat (sequence w) \<le> unat (sequence (snd (run rs w)))"
proof (induction rs arbitrary: w)
  case Nil
  then show ?case by simp
next
  case (Cons r rs)
  show ?case
  proof (cases r)
    case (MarketRequest a s q)
    have sq: "sequence (market a s q w) = sequence w"
      by (simp add: market_as_market_on)
    with Cons.prems have "sequence (market a s q w) \<noteq> 0"
      "unat (sequence (market a s q w)) + length rs < 2 ^ 64" by simp_all
    from Cons.IH [OF this] sq MarketRequest show ?thesis by simp
  next
    case (LimitRequest a s q p)
    let ?r = "limit_on s a q p w"
    from Cons.prems(2) have "unat (sequence w) + 1 < 2 ^ 64" by simp
    from word_succ_less [OF this]
    have un: "unat (sequence w + 1) = unat (sequence w) + 1" by simp
    then have nz: "sequence w + 1 \<noteq> 0" by (metis Suc_eq_plus1 nat.distinct(1) unat_0)
    from limit_on_uid [of s a q p w]
    consider (gone) "fst ?r = 0" "sequence (snd ?r) = sequence w"
      | (rests) "fst ?r = sequence w" "sequence (snd ?r) = sequence w + 1" by blast
    then show ?thesis
    proof cases
      case gone
      with Cons.prems have "sequence (snd ?r) \<noteq> 0"
        "unat (sequence (snd ?r)) + length rs < 2 ^ 64" by simp_all
      from Cons.IH [OF this] gone LimitRequest show ?thesis
        by (simp add: run_limit del: run.simps)
    next
      case rests
      with Cons.prems un nz have "sequence (snd ?r) \<noteq> 0"
        "unat (sequence (snd ?r)) + length rs < 2 ^ 64" by simp_all
      from Cons.IH [OF this] rests un
      have ih: "filter (\<lambda>u. u \<noteq> 0) (fst (run rs (snd ?r)))
          = map of_nat [Suc (unat (sequence w)) ..< unat (sequence (snd (run rs (snd ?r))))]"
        and le: "Suc (unat (sequence w)) \<le> unat (sequence (snd (run rs (snd ?r))))"
        by simp_all
      from le have "[unat (sequence w) ..< unat (sequence (snd (run rs (snd ?r))))]
          = unat (sequence w) # [Suc (unat (sequence w)) ..< unat (sequence (snd (run rs (snd ?r))))]"
        by (simp add: upt_conv_Cons)
      with ih le rests Cons.prems(1) LimitRequest show ?thesis
        by (simp add: run_limit del: run.simps)
    qed
  next
    case (CancelRequest order_id)
    from Cons.prems(2) have n: "unat (sequence w) + length rs < 2 ^ 64" by simp
    show ?thesis
    proof (cases "cancel order_id w")
      case (Inl e)
      from Cons.IH [OF Cons.prems(1) n] show ?thesis using CancelRequest Inl by simp
    next
      case (Inr w1)
      from cancel_evolves [OF Inr] have sq: "sequence w1 = sequence w"
        by (simp add: evolves_def)
      with Cons.prems(1) n have "sequence w1 \<noteq> 0" "unat (sequence w1) + length rs < 2 ^ 64"
        by simp_all
      from Cons.IH [OF this] sq show ?thesis using CancelRequest Inr by simp
    qed
  next
    case (ReduceRequest order_id q)
    from Cons.prems(2) have n: "unat (sequence w) + length rs < 2 ^ 64" by simp
    show ?thesis
    proof (cases "reduce order_id q w")
      case (Inl e)
      from Cons.IH [OF Cons.prems(1) n] show ?thesis using ReduceRequest Inl by simp
    next
      case (Inr w1)
      from reduce_evolves [OF Inr] have sq: "sequence w1 = sequence w"
        by (simp add: evolves_def)
      with Cons.prems(1) n have "sequence w1 \<noteq> 0" "unat (sequence w1) + length rs < 2 ^ 64"
        by simp_all
      from Cons.IH [OF this] sq show ?thesis using ReduceRequest Inr by simp
    qed
  qed
qed

lemma limit_on_entry:
  "(consumed_on_entry a s q p w \<longrightarrow>
      fst (limit_on s a q p w) = 0
      \<and> sequence (snd (limit_on s a q p w)) = sequence w
      \<and> order_map (snd (limit_on s a q p w)) (sequence w) = None)
   \<and> (\<not> consumed_on_entry a s q p w \<longrightarrow>
      fst (limit_on s a q p w) = sequence w
      \<and> sequence (snd (limit_on s a q p w)) = sequence w + 1
      \<and> (\<exists>ord. order_map (snd (limit_on s a q p w)) (sequence w) = Some ord
            \<and> quantity ord = remaining_on_entry a s q p w))"
proof -
  define new where "new = \<lparr>uid = sequence w, side = s, quantity = q, price = p, account = a\<rparr>"
  define order where "order = at_or (order_map w) (sequence w) new"
  define w1 where "w1 = w\<lparr>order_map := emplace (sequence w) new (order_map w)\<rparr>"
  have present: "order_map w1 (sequence w) = Some order"
    by (cases "order_map w (sequence w)") (simp_all add: w1_def order_def emplace_def at_or_def)
  have cr: "crosses s p w1 = crosses s p w" by (cases s) (simp_all add: w1_def crosses_def)
  show ?thesis
  proof (cases "crosses s p w")
    case False
    then have "limit_on s a q p w
        = (sequence w, (LimitTree_limit s (sequence w) order w1)\<lparr>sequence := sequence w + 1\<rparr>)"
      and "remaining_on_entry a s q p w = quantity order"
      and "\<not> consumed_on_entry a s q p w"
      by (simp_all add: limit_on_def remaining_on_entry_def consumed_on_entry_def Let_def
          new_def [symmetric] order_def [symmetric] w1_def [symmetric] cr)
    with present show ?thesis by simp
  next
    case True
    obtain order' w2 where mk: "LimitTree_market (opposite s) order w1 = (order', w2)"
      by (cases "LimitTree_market (opposite s) order w1") auto
    then have "sequence w2 = sequence w1"
      using sequence_market [of "opposite s" order w1] by simp
    then have sq2: "sequence w2 = sequence w" by (simp add: w1_def)
    from True mk have r: "remaining_on_entry a s q p w = quantity order'"
      and c: "consumed_on_entry a s q p w \<longleftrightarrow> quantity order' = 0"
      by (simp_all add: remaining_on_entry_def consumed_on_entry_def Let_def
          new_def [symmetric] order_def [symmetric] w1_def [symmetric])
    from True mk have "limit_on s a q p w =
        (if quantity order' = 0
         then (0, erase (sequence w) (w2\<lparr>order_map := (order_map w2)(sequence w \<mapsto> order')\<rparr>))
         else (sequence w,
               (LimitTree_limit s (sequence w) order'
                  (w2\<lparr>order_map := (order_map w2)(sequence w \<mapsto> order')\<rparr>))
                 \<lparr>sequence := sequence w + 1\<rparr>))"
      by (simp add: limit_on_def Let_def new_def [symmetric] order_def [symmetric]
          w1_def [symmetric] cr)
    then show ?thesis by (simp add: sq2 r c)
  qed
qed

text \<open>
  Claim C2, amended: over any sequence of limit, market, cancel and reduce requests,
  while the counter does not wrap, the nonzero uids returned by limit requests are
  consecutive and strictly increasing, from the counter's first value to its last. A
  limit order that is fully consumed on entry returns 0, leaves the counter unchanged and
  leaves no order under the counter's value in the map; every other limit order returns
  the counter's value, rests under it with the quantity it has left, and advances the
  counter by one. \<^verbatim>\<open>clear\<close> empties the map and sets the counter back to 1.
\<close>

theorem limit_uids_consecutive:
  assumes "sequence w \<noteq> 0" and "unat (sequence w) + length rs < 2 ^ 64"
  shows "filter (\<lambda>u. u \<noteq> 0) (fst (run rs w))
           = map of_nat [unat (sequence w) ..< unat (sequence (snd (run rs w)))]
       \<and> (consumed_on_entry a s q p w \<longrightarrow>
             fst (limit a s q p w) = 0
             \<and> sequence (snd (limit a s q p w)) = sequence w
             \<and> order_map (snd (limit a s q p w)) (sequence w) = None)
       \<and> (\<not> consumed_on_entry a s q p w \<longrightarrow>
             fst (limit a s q p w) = sequence w
             \<and> sequence (snd (limit a s q p w)) = sequence w + 1
             \<and> (\<exists>ord. order_map (snd (limit a s q p w)) (sequence w) = Some ord
                   \<and> quantity ord = remaining_on_entry a s q p w))
       \<and> sequence (clear w) = 1 \<and> order_map (clear w) = Map.empty"
  using run_uids [OF assms] limit_on_entry [of a s q p w]
  by (simp add: limit_as_limit_on clear_def)

text \<open>
  After the buy of 10 at 100 has rested under uid 1, a sell of 10 at 100 is fully
  consumed and returns 0 with the counter still 2, and a following buy of 5 rests under
  uid 2. In the sequence of requests the buy is canceled and the next buy gets uid 3: the
  uids returned are 0, 2, 3.
\<close>

theorem limit_uids_consecutive_witness:
  "sequence resting_buy \<noteq> 0
   \<and> consumed_on_entry 2 Sell 10 100 resting_buy
   \<and> fst (limit 2 Sell 10 100 resting_buy) = 0
   \<and> sequence (snd (limit 2 Sell 10 100 resting_buy)) = 2
   \<and> order_map (snd (limit 2 Sell 10 100 resting_buy)) 2 = None
   \<and> \<not> consumed_on_entry 1 Buy 5 100 resting_buy
   \<and> remaining_on_entry 1 Buy 5 100 resting_buy = 5
   \<and> fst (limit 1 Buy 5 100 resting_buy) = 2
   \<and> sequence (snd (limit 1 Buy 5 100 resting_buy)) = 3
   \<and> (\<exists>ord. order_map (snd (limit 1 Buy 5 100 resting_buy)) 2 = Some ord \<and> quantity ord = 5)
   \<and> fst (run requests_with_cancel resting_buy) = [0, 2, 3]
   \<and> sequence (snd (run requests_with_cancel resting_buy)) = 4
   \<and> filter (\<lambda>u. u \<noteq> 0) (fst (run requests_with_cancel resting_buy)) = map of_nat [2 ..< 4]"
proof -
  have sq: "sequence resting_buy = 2" by code_simp
  then have nz: "sequence resting_buy \<noteq> 0" by simp
  have n: "unat (sequence resting_buy) + length requests_with_cancel < 2 ^ 64"
    by (simp add: sq requests_with_cancel_def)
  have c: "consumed_on_entry 2 Sell 10 100 resting_buy"
    "\<not> consumed_on_entry 1 Buy 5 100 resting_buy"
    "remaining_on_entry 1 Buy 5 100 resting_buy = 5"
    by code_simp+
  have e: "fst (run requests_with_cancel resting_buy) = [0, 2, 3]"
    "sequence (snd (run requests_with_cancel resting_buy)) = 4"
    by code_simp+
  from limit_uids_consecutive [OF nz n, of 2 Sell 10 100] c(1) sq
  have a: "fst (limit 2 Sell 10 100 resting_buy) = 0"
    "sequence (snd (limit 2 Sell 10 100 resting_buy)) = 2"
    "order_map (snd (limit 2 Sell 10 100 resting_buy)) 2 = None"
    and f: "filter (\<lambda>u. u \<noteq> 0) (fst (run requests_with_cancel resting_buy))
       = map of_nat [2 ..< 4]"
    by (simp_all add: e)
  from limit_uids_consecutive [OF nz n, of 1 Buy 5 100] c(2,3) sq
  have b: "fst (limit 1 Buy 5 100 resting_buy) = 2"
    "sequence (snd (limit 1 Buy 5 100 resting_buy)) = 3"
    "\<exists>ord. order_map (snd (limit 1 Buy 5 100 resting_buy)) 2 = Some ord \<and> quantity ord = 5"
    by simp_all
  from nz c a b e f show ?thesis by simp
qed

section \<open>Replace requests\<close>


lemma two_resting_eq:
  "two_resting = \<lparr>sells = empty_tree,
     buys = \<lparr>limits = [\<lparr>key = 99, count = 1, volume = 7, queue = [2]\<rparr>,
                       \<lparr>key = 100, count = 1, volume = 10, queue = [1]\<rparr>],
             tree_count = 2, tree_volume = 17\<rparr>,
     order_map = [1 \<mapsto> \<lparr>uid = 1, side = Buy, quantity = 10, price = 100, account = 1\<rparr>,
                  2 \<mapsto> \<lparr>uid = 2, side = Buy, quantity = 7, price = 99, account = 2\<rparr>],
     sequence = 3,
     accounts = named_accounts(1 := account_limit 1 (named_accounts 1),
                               2 := account_limit 2 (named_accounts 2)),
     connections = session_connections\<rparr>"
  by (simp add: two_resting_def limit_buy_def new_book_def Let_def crosses_def best_def
      empty_tree_def at_or_def emplace_def LimitTree_limit_def tree_def set_tree_def
      update_account_def tree_limit_def find_limit_def new_limit_def)






section \<open>Reducing an order\<close>

lemma limit_remove_after_sub:
  "limit_remove ptr 0 (l\<lparr>volume := volume l - ucast q\<rparr>) = limit_remove ptr q l"
  by (simp add: limit_remove_def)

lemma tree_remove_after_sub:
  "tree_remove p ptr 0 (tree_volume_sub q (limit_volume_sub p q t)) = tree_remove p ptr q t"
proof -
  have "(\<lambda>l. if key l = p then limit_remove ptr 0 l else l)
          \<circ> (\<lambda>l. if key l = p then l\<lparr>volume := volume l - ucast q\<rparr> else l)
        = (\<lambda>l. if key l = p then limit_remove ptr q l else l)"
    by (rule ext) (simp add: limit_remove_def)
  then show ?thesis
    by (simp add: tree_remove_def tree_volume_sub_def limit_volume_sub_def)
qed

lemma reduce_all_is_cancel:
  assumes "order_map w order_id = Some ord"
  shows "reduce order_id (quantity ord) w = cancel order_id w"
proof -
  have "erase order_id (LimitTree_cancel (side ord) order_id (ord\<lparr>quantity := 0\<rparr>)
          (set_tree (side ord)
             (tree_volume_sub (quantity ord)
                (limit_volume_sub (price ord) (quantity ord) (tree (side ord) w)))
             (w\<lparr>order_map := (order_map w)(order_id \<mapsto> ord\<lparr>quantity := 0\<rparr>)\<rparr>)))
      = erase order_id (LimitTree_cancel (side ord) order_id ord w)"
    by (cases "side ord")
      (simp_all add: erase_def LimitTree_cancel_def update_account_def set_tree_def tree_def
        tree_remove_after_sub)
  with assms show ?thesis
    by (simp add: reduce_def cancel_def Let_def tree_set_tree_other)
qed

lemma find_limit_volume_sub:
  "find (\<lambda>l. key l = p) (map (\<lambda>l. if key l = k then l\<lparr>volume := volume l - ucast q\<rparr> else l) ls)
     = map_option (\<lambda>l. if key l = k then l\<lparr>volume := volume l - ucast q\<rparr> else l)
         (find (\<lambda>l. key l = p) ls)"
  by (induction ls) auto

lemma volume_at_limit_volume_sub:
  "find_limit p t = Some l \<Longrightarrow>
     volume_at p (limit_volume_sub p q t) = volume_at p t - ucast q"
  by (auto simp: volume_at_def find_limit_def limit_volume_sub_def find_limit_volume_sub
      dest: find_Some_iff [THEN iffD1])

lemma count_at_limit_volume_sub: "count_at p (limit_volume_sub k q t) = count_at p t"
  by (cases "find (\<lambda>l. key l = p) (limits t)")
    (auto simp: count_at_def find_limit_def limit_volume_sub_def find_limit_volume_sub)

lemma set_queues_remove:
  "set (concat (map (\<lambda>l. queue (if key l = p then limit_remove ptr q l else l)) ls))
     \<subseteq> set (concat (map queue ls))"
  by (induction ls) (auto simp: limit_remove_def dest: notin_set_remove1)

lemma not_in_queues_after_remove:
  "distinct (concat (map queue ls)) \<Longrightarrow> l \<in> set ls \<Longrightarrow> key l = p \<Longrightarrow> ptr \<in> set (queue l) \<Longrightarrow>
   ptr \<notin> set (concat (map (\<lambda>l. queue (if key l = p then limit_remove ptr q l else l)) ls))"
proof (induction ls)
  case Nil
  then show ?case by simp
next
  case (Cons l0 ls)
  let ?g = "\<lambda>l. queue (if key l = p then limit_remove ptr q l else l)"
  from Cons.prems(1) have d0: "distinct (queue l0)" and dr: "distinct (concat (map queue ls))"
    and dj: "set (queue l0) \<inter> set (concat (map queue ls)) = {}" by simp_all
  show ?case
  proof (cases "l = l0")
    case True
    with Cons.prems have "ptr \<in> set (queue l0)" "key l0 = p" by simp_all
    with d0 have "ptr \<notin> set (?g l0)" by (simp add: limit_remove_def)
    moreover from \<open>ptr \<in> set (queue l0)\<close> dj have "ptr \<notin> set (concat (map queue ls))" by auto
    with set_queues_remove [of p ptr q ls] have "ptr \<notin> set (concat (map ?g ls))" by blast
    ultimately show ?thesis by simp
  next
    case False
    with Cons.prems have l: "l \<in> set ls" by simp
    with Cons.prems(4) have "ptr \<in> set (concat (map queue ls))" by auto
    with dj have "ptr \<notin> set (queue l0)" by auto
    then have "ptr \<notin> set (?g l0)" by (auto simp: limit_remove_def dest: notin_set_remove1)
    moreover have "ptr \<notin> set (concat (map ?g ls))"
      by (rule Cons.IH [OF dr l Cons.prems(3,4)])
    ultimately show ?thesis by simp
  qed
qed

lemma not_queued_after_remove:
  assumes "distinct (queued t)" and "l \<in> set (limits t)" and "key l = p" and "ptr \<in> set (queue l)"
  shows "ptr \<notin> set (queued (tree_remove p ptr q t))"
proof -
  let ?f = "\<lambda>l. if key l = p then limit_remove ptr q l else l"
  have "set (queued (tree_remove p ptr q t)) \<subseteq> set (concat (map queue (map ?f (limits t))))"
    by (auto simp: queued_def tree_remove_def)
  also have "concat (map queue (map ?f (limits t))) = concat (map (\<lambda>l. queue (?f l)) (limits t))"
    by (simp add: comp_def)
  finally show ?thesis
    using not_in_queues_after_remove [of "limits t" l p ptr q] assms by (auto simp: queued_def)
qed

text \<open>
  Claim C5. For an order resting in the book (it is in the uid map and queued once in
  the level of its price on its side), \<^verbatim>\<open>reduce\<close> by less than the remaining quantity
  subtracts the amount from the order, from the volume of its level and from the volume
  of its side, and changes nothing else; by exactly the remaining quantity it is the
  same as \<^verbatim>\<open>cancel\<close>: the order leaves the uid map, its queue and its account's order
  set; by more than the remaining quantity it fails with the thrown message and no new
  state.
\<close>

theorem reduce_cases:
  assumes "resting_in w order_id ord"
  shows "(q < quantity ord \<longrightarrow>
           (\<exists>w'. reduce order_id q w = Inr w'
              \<and> order_map w' = (order_map w)(order_id \<mapsto> ord\<lparr>quantity := quantity ord - q\<rparr>)
              \<and> volume_at (price ord) (tree (side ord) w')
                  = volume_at (price ord) (tree (side ord) w) - ucast q
              \<and> tree_volume (tree (side ord) w') = tree_volume (tree (side ord) w) - ucast q
              \<and> tree_count (tree (side ord) w') = tree_count (tree (side ord) w)
              \<and> count_at (price ord) (tree (side ord) w') = count_at (price ord) (tree (side ord) w)
              \<and> queued (tree (side ord) w') = queued (tree (side ord) w)
              \<and> tree (opposite (side ord)) w' = tree (opposite (side ord)) w
              \<and> accounts w' = accounts w))
       \<and> (q = quantity ord \<longrightarrow>
           reduce order_id q w = cancel order_id w
           \<and> (\<exists>w'. reduce order_id q w = Inr w'
                \<and> \<not> has order_id w'
                \<and> order_id \<notin> set (queued (tree (side ord) w'))
                \<and> order_id \<notin> orders (accounts w' (account ord))
                \<and> tree_volume (tree (side ord) w') = tree_volume (tree (side ord) w) - ucast q
                \<and> tree_count (tree (side ord) w') = tree_count (tree (side ord) w) - 1))
       \<and> (quantity ord < q \<longrightarrow> reduce order_id q w = Inl (TryingToRemove q (quantity ord)))"
proof (intro conjI impI)
  from assms obtain l where om: "order_map w order_id = Some ord"
    and d: "distinct (queued (tree (side ord) w))"
    and fl: "find_limit (price ord) (tree (side ord) w) = Some l"
    and q: "order_id \<in> set (queue l)"
    by (auto simp: resting_in_def)
  from fl have l: "l \<in> set (limits (tree (side ord) w))" "key l = price ord"
    by (auto simp: find_limit_def find_Some_iff)
  {
    assume lt: "q < quantity ord"
    then have nz: "quantity ord - q \<noteq> 0" by simp
    let ?w1 = "w\<lparr>order_map := (order_map w)(order_id \<mapsto> ord\<lparr>quantity := quantity ord - q\<rparr>)\<rparr>"
    let ?w' = "set_tree (side ord)
        (tree_volume_sub q (limit_volume_sub (price ord) q (tree (side ord) w))) ?w1"
    from lt have "\<not> quantity ord < q" by simp
    with om nz have r: "reduce order_id q w = Inr ?w'"
      by (simp add: reduce_def Let_def)
    have t: "tree (side ord) ?w' = tree_volume_sub q (limit_volume_sub (price ord) q (tree (side ord) w))"
      by simp
    have "volume_at (price ord) (tree (side ord) ?w')
        = volume_at (price ord) (tree (side ord) w) - ucast q"
      using volume_at_limit_volume_sub [OF fl, of q]
      by (simp add: t volume_at_def find_limit_def tree_volume_sub_def)
    moreover have "count_at (price ord) (tree (side ord) ?w') = count_at (price ord) (tree (side ord) w)"
      using count_at_limit_volume_sub [of "price ord" "price ord" q "tree (side ord) w"]
      by (simp add: t count_at_def find_limit_def tree_volume_sub_def)
    moreover have "tree_volume (tree (side ord) ?w') = tree_volume (tree (side ord) w) - ucast q"
      "tree_count (tree (side ord) ?w') = tree_count (tree (side ord) w)"
      by (simp_all add: t tree_volume_sub_def limit_volume_sub_def)
    moreover have "tree (opposite (side ord)) ?w' = tree (opposite (side ord)) w"
      by (simp add: tree_set_tree_other)
    ultimately show "\<exists>w'. reduce order_id q w = Inr w'
        \<and> order_map w' = (order_map w)(order_id \<mapsto> ord\<lparr>quantity := quantity ord - q\<rparr>)
        \<and> volume_at (price ord) (tree (side ord) w')
            = volume_at (price ord) (tree (side ord) w) - ucast q
        \<and> tree_volume (tree (side ord) w') = tree_volume (tree (side ord) w) - ucast q
        \<and> tree_count (tree (side ord) w') = tree_count (tree (side ord) w)
        \<and> count_at (price ord) (tree (side ord) w') = count_at (price ord) (tree (side ord) w)
        \<and> queued (tree (side ord) w') = queued (tree (side ord) w)
        \<and> tree (opposite (side ord)) w' = tree (opposite (side ord)) w
        \<and> accounts w' = accounts w"
      using r by (intro exI [of _ ?w']) simp
  }
  {
    assume eq: "q = quantity ord"
    with om show rc: "reduce order_id q w = cancel order_id w"
      by (simp add: reduce_all_is_cancel)
    let ?w' = "erase order_id (LimitTree_cancel (side ord) order_id ord w)"
    have c: "cancel order_id w = Inr ?w'" using om by (simp add: cancel_def)
    have t: "tree (side ord) ?w'
        = tree_remove (price ord) order_id (quantity ord) (tree (side ord) w)"
      by (simp add: tree_LimitTree_cancel)
    have "order_id \<notin> set (queued (tree (side ord) ?w'))"
      using not_queued_after_remove [OF d l q] by (simp only: t) simp
    moreover have "\<not> has order_id ?w'" by (simp add: has_def)
    moreover have "order_id \<notin> orders (accounts ?w' (account ord))"
      by (simp add: LimitTree_cancel_def update_account_def account_cancel_def)
    moreover have "tree_volume (tree (side ord) ?w') = tree_volume (tree (side ord) w) - ucast q"
      "tree_count (tree (side ord) ?w') = tree_count (tree (side ord) w) - 1"
      by (simp_all only: t) (simp_all add: tree_remove_def eq)
    ultimately show "\<exists>w'. reduce order_id q w = Inr w'
        \<and> \<not> has order_id w'
        \<and> order_id \<notin> set (queued (tree (side ord) w'))
        \<and> order_id \<notin> orders (accounts w' (account ord))
        \<and> tree_volume (tree (side ord) w') = tree_volume (tree (side ord) w) - ucast q
        \<and> tree_count (tree (side ord) w') = tree_count (tree (side ord) w) - 1"
      using rc c by (intro exI [of _ ?w']) simp
  }
  {
    assume "quantity ord < q"
    with om show "reduce order_id q w = Inl (TryingToRemove q (quantity ord))"
      by (simp add: reduce_def)
  }
qed

section \<open>Submitting and canceling a limit order\<close>

lemma resting_in_two_resting: "resting_in two_resting 1 order_1"
  by (simp add: resting_in_def two_resting_eq order_1_def tree_def queued_def find_limit_def)

theorem reduce_cases_witness:
  "resting_in two_resting 1 order_1
   \<and> (\<exists>w'. reduce 1 4 two_resting = Inr w'
         \<and> order_map w' 1 = Some (order_1\<lparr>quantity := 6\<rparr>)
         \<and> volume_at 100 (buys w') = 6
         \<and> tree_volume (buys w') = 13
         \<and> tree_count (buys w') = 2)
   \<and> reduce 1 10 two_resting = cancel 1 two_resting
   \<and> (\<exists>w'. reduce 1 10 two_resting = Inr w'
         \<and> \<not> has 1 w' \<and> 1 \<notin> set (queued (buys w')) \<and> 1 \<notin> orders (accounts w' 1)
         \<and> tree_volume (buys w') = 7 \<and> tree_count (buys w') = 1)
   \<and> reduce 1 11 two_resting = Inl (TryingToRemove 11 10)"
proof -
  have f: "side order_1 = Buy" "quantity order_1 = 10" "price order_1 = 100" "account order_1 = 1"
    "tree Buy two_resting = buys two_resting"
    "volume_at 100 (buys two_resting) = 10" "tree_volume (buys two_resting) = 17"
    "tree_count (buys two_resting) = 2"
    by (simp_all add: order_1_def tree_def two_resting_eq volume_at_def find_limit_def)
  note t = reduce_cases [OF resting_in_two_resting]
  from t [of 4] f have a: "\<exists>w'. reduce 1 4 two_resting = Inr w'
         \<and> order_map w' 1 = Some (order_1\<lparr>quantity := 6\<rparr>)
         \<and> volume_at 100 (buys w') = 6
         \<and> tree_volume (buys w') = 13
         \<and> tree_count (buys w') = 2"
    by (auto simp: tree_def)
  have q10: "(10 :: Quantity) = quantity order_1" by (simp add: f)
  note t10 = t [of 10, THEN conjunct2, THEN conjunct1, rule_format, OF q10]
  note b1 = t10 [THEN conjunct1]
  from t10 [THEN conjunct2] have b2: "\<exists>w'. reduce 1 10 two_resting = Inr w'
         \<and> \<not> has 1 w' \<and> 1 \<notin> set (queued (buys w')) \<and> 1 \<notin> orders (accounts w' 1)
         \<and> tree_volume (buys w') = 7 \<and> tree_count (buys w') = 1"
    by (simp add: f tree_def)
  note b = b1 b2
  from t [of 11] f have c: "reduce 1 11 two_resting = Inl (TryingToRemove 11 10)"
    by simp
  from resting_in_two_resting a b c show ?thesis by simp
qed

lemma remove_new_level:
  assumes "\<forall>l \<in> set ls. key l \<noteq> price ord \<and> queue l \<noteq> []"
  shows "filter (\<lambda>l. queue l \<noteq> [])
           (map (\<lambda>l. if key l = price ord then limit_remove ptr q l else l)
              (insort_key key (new_limit ptr ord) ls)) = ls"
  using assms
proof (induction ls)
  case Nil
  then show ?case by (simp add: new_limit_def limit_remove_def)
next
  case (Cons l ls)
  have id: "filter (\<lambda>l. queue l \<noteq> [])
      (map (\<lambda>l. if key l = price ord then limit_remove ptr q l else l) (l # ls)) = l # ls"
  proof -
    have "map (\<lambda>l. if key l = price ord then limit_remove ptr q l else l) (l # ls) = l # ls"
      using Cons.prems by (intro map_idI) auto
    moreover have "filter (\<lambda>l. queue l \<noteq> []) (l # ls) = l # ls"
      using Cons.prems by (intro filter_True) auto
    ultimately show ?thesis by simp
  qed
  show ?case
  proof (cases "key (new_limit ptr ord) \<le> key l")
    case True
    then have "insort_key key (new_limit ptr ord) (l # ls) = new_limit ptr ord # l # ls" by simp
    with id show ?thesis by (simp add: new_limit_def limit_remove_def)
  next
    case False
    then have "insort_key key (new_limit ptr ord) (l # ls)
        = l # insort_key key (new_limit ptr ord) ls" by simp
    with Cons show ?thesis by simp
  qed
qed

lemma remove_appended:
  assumes "\<forall>l \<in> set ls. queue l \<noteq> [] \<and> ptr \<notin> set (queue l)"
  shows "filter (\<lambda>l. queue l \<noteq> [])
           (map (\<lambda>l. if key l = p then limit_remove ptr (quantity ord) l else l)
              (map (\<lambda>l. if key l = p then limit_append ptr ord l else l) ls)) = ls"
  using assms
proof (induction ls)
  case Nil
  then show ?case by simp
next
  case (Cons l ls)
  from Cons.prems have ne: "queue l \<noteq> []" and nq: "ptr \<notin> set (queue l)" by simp_all
  from nq have "remove1 ptr (queue l @ [ptr]) = queue l" by (simp add: remove1_append)
  then have "limit_remove ptr (quantity ord) (limit_append ptr ord l) = l"
    by (simp add: limit_remove_def limit_append_def)
  with ne Cons show ?case by (simp add: limit_append_def)
qed

lemma tree_remove_tree_limit:
  assumes ne: "levels_nonempty t" and fresh: "ptr \<notin> set (queued t)"
  shows "tree_remove (price ord) ptr (quantity ord) (tree_limit ptr ord t) = t"
proof (cases "find_limit (price ord) t")
  case None
  then have "\<forall>l \<in> set (limits t). key l \<noteq> price ord"
    by (auto simp: find_limit_def find_None_iff)
  with ne have "\<forall>l \<in> set (limits t). key l \<noteq> price ord \<and> queue l \<noteq> []"
    by (simp add: levels_nonempty_def)
  from remove_new_level [OF this, of ptr "quantity ord"] None show ?thesis
    by (simp add: tree_remove_def tree_limit_def)
next
  case (Some l)
  from ne fresh have "\<forall>l \<in> set (limits t). queue l \<noteq> [] \<and> ptr \<notin> set (queue l)"
    by (auto simp: levels_nonempty_def queued_def)
  from remove_appended [OF this, of "price ord" ord] Some show ?thesis
    by (simp add: tree_remove_def tree_limit_def del: map_map)
qed

lemma crosses_order_map [simp]: "crosses s p (w\<lparr>order_map := om\<rparr>) = crosses s p w"
  by (cases s) (simp_all add: crosses_def)

text \<open>
  Claim C8. In a book that satisfies the invariant and has no empty level on the side of
  the order, a limit order that does not cross gets the counter's value as uid, and
  canceling that uid at once gives back both sides (levels, queues, counts, volumes and
  so the best prices) and the uid map as they were; every account keeps its shares and
  capital, and the uid is not in the account's order set. Only the uid counter has
  advanced.
\<close>

theorem limit_then_cancel:
  assumes inv: "book_inv A w" and ne: "levels_nonempty (tree s w)" and nc: "\<not> crosses s p w"
  shows "fst (limit a s q p w) = sequence w
       \<and> (\<exists>w'. cancel (fst (limit a s q p w)) (snd (limit a s q p w)) = Inr w'
            \<and> sells w' = sells w \<and> buys w' = buys w \<and> order_map w' = order_map w
            \<and> connections w' = connections w
            \<and> accounts w' = (accounts w)
                 (a := (accounts w a)\<lparr>orders := orders (accounts w a) - {sequence w}\<rparr>)
            \<and> (\<forall>b. shares (accounts w' b) = shares (accounts w b)
                    \<and> capital (accounts w' b) = capital (accounts w b))
            \<and> sequence w \<notin> orders (accounts w' a)
            \<and> sequence w' = sequence w + 1)"
proof -
  define sq where "sq = sequence w"
  define new where "new = \<lparr>uid = sq, side = s, quantity = q, price = p, account = a\<rparr>"
  define w1 where "w1 = w\<lparr>order_map := (order_map w)(sq \<mapsto> new)\<rparr>"
  define W where "W = (LimitTree_limit s sq new w1)\<lparr>sequence := sq + 1\<rparr>"
  define w' where "w' = erase sq (LimitTree_cancel s sq new W)"
  from inv have mb: "map_below sq w" and qb: "queued_below sq w"
    by (simp_all add: book_inv_def sq_def)
  have fresh: "order_map w sq = None"
  proof (cases "order_map w sq")
    case (Some ord)
    with mb have "sq < sq" by (auto simp: map_below_def)
    then show ?thesis by simp
  qed simp
  have notq: "sq \<notin> set (queued (tree s w))"
    using qb by (auto simp: queued_below_def)
  have l: "limit a s q p w = (sq, W)"
    using nc fresh
    by (simp add: limit_as_limit_on limit_on_def Let_def at_or_def emplace_def
        sq_def [symmetric] new_def [symmetric] w1_def [symmetric] W_def)
  have "order_map W sq = Some new" by (simp add: W_def w1_def)
  then have c: "cancel sq W = Inr w'" by (simp add: cancel_def w'_def new_def)
  have restored: "tree_remove p sq q (tree_limit sq new (tree s w)) = tree s w"
    using tree_remove_tree_limit [OF ne notq, of new] by (simp add: new_def)
  have ts: "tree s w' = tree s w"
    using restored
    by (simp add: w'_def W_def w1_def tree_LimitTree_cancel tree_LimitTree_limit new_def)
  have tother: "tree (opposite s) w' = tree (opposite s) w"
    by (simp add: w'_def W_def w1_def tree_LimitTree_cancel tree_LimitTree_limit)
  have trees: "sells w' = sells w" "buys w' = buys w"
    using ts tother by (cases s; simp add: tree_def)+
  have om: "order_map w' = order_map w"
    using fresh by (simp add: w'_def W_def w1_def LimitTree_cancel_def fun_upd_idem)
  have co: "connections w' = connections w"
    by (cases s)
      (simp_all add: w'_def W_def w1_def LimitTree_cancel_def LimitTree_limit_def erase_def
        update_account_def set_tree_def)
  have ac: "accounts w' = (accounts w)
      (a := (accounts w a)\<lparr>orders := orders (accounts w a) - {sq}\<rparr>)"
    by (cases s)
      (simp_all add: w'_def W_def w1_def LimitTree_cancel_def LimitTree_limit_def
        update_account_def set_tree_def new_def account_cancel_def account_limit_def)
  have sq': "sequence w' = sq + 1"
    by (simp add: w'_def W_def LimitTree_cancel_def)
  from ac have bal: "\<forall>b. shares (accounts w' b) = shares (accounts w b)
      \<and> capital (accounts w' b) = capital (accounts w b)"
    and gone: "sq \<notin> orders (accounts w' a)" by simp_all
  from l c trees om co ac bal gone sq' show ?thesis
    by (simp add: sq_def [symmetric])
qed

lemma book_inv_two_resting: "book_inv {1, 2} two_resting"
proof -
  have "two_resting = snd (run [LimitRequest 1 Buy 10 100, LimitRequest 2 Buy 7 99]
      (new_book named_accounts session_connections))"
    by (simp add: two_resting_def limit_def split_beta)
  moreover have "unat (sequence (new_book named_accounts session_connections))
      + length [LimitRequest 1 Buy 10 100, LimitRequest 2 Buy 7 99] < 2 ^ 64"
    by (simp add: new_book_def)
  moreover have "\<forall>r \<in> set [LimitRequest 1 Buy 10 100, LimitRequest 2 Buy 7 99].
      request_accounts r \<subseteq> {1, 2}" by simp
  ultimately show ?thesis
    using run_invariant [of "{1, 2}" "new_book named_accounts session_connections"
        "[LimitRequest 1 Buy 10 100, LimitRequest 2 Buy 7 99]", OF _ book_inv_new_book]
    by (simp del: run.simps)
qed

theorem limit_then_cancel_witness:
  "book_inv {1, 2} two_resting
   \<and> levels_nonempty (tree Buy two_resting)
   \<and> \<not> crosses Buy 100 two_resting
   \<and> fst (limit 2 Buy 4 100 two_resting) = 3
   \<and> order_map (snd (limit 2 Buy 4 100 two_resting)) 3 = Some order_3
   \<and> volume_at 100 (buys (snd (limit 2 Buy 4 100 two_resting))) = 14
   \<and> (\<exists>w'. cancel 3 (snd (limit 2 Buy 4 100 two_resting)) = Inr w'
         \<and> sells w' = sells two_resting \<and> buys w' = buys two_resting
         \<and> order_map w' = order_map two_resting
         \<and> 3 \<notin> orders (accounts w' 2)
         \<and> sequence w' = 4)"
proof -
  have ne: "levels_nonempty (tree Buy two_resting)"
    by (simp add: levels_nonempty_def two_resting_eq tree_def)
  have nc: "\<not> crosses Buy 100 two_resting"
    by (simp add: crosses_def two_resting_eq best_def empty_tree_def)
  have sq: "sequence two_resting = 3" by (simp add: two_resting_eq)
  have e: "order_map (snd (limit 2 Buy 4 100 two_resting)) 3 = Some order_3"
    "volume_at 100 (buys (snd (limit 2 Buy 4 100 two_resting))) = 14"
    by code_simp+
  from limit_then_cancel [OF book_inv_two_resting ne nc, of 2 4] sq
  have "fst (limit 2 Buy 4 100 two_resting) = 3"
    "\<exists>w'. cancel 3 (snd (limit 2 Buy 4 100 two_resting)) = Inr w'
         \<and> sells w' = sells two_resting \<and> buys w' = buys two_resting
         \<and> order_map w' = order_map two_resting
         \<and> 3 \<notin> orders (accounts w' 2)
         \<and> sequence w' = 4"
    by auto
  with book_inv_two_resting ne nc e show ?thesis by simp
qed

section \<open>Books reached by requests\<close>

text \<open>
  No request leaves an empty level behind, so every book that limit, market, cancel and
  reduce requests reach from the empty book satisfies the invariant and has no empty
  level: the hypotheses of the round trip above hold in all of them.
\<close>

lemma levels_nonempty_tree_remove: "levels_nonempty (tree_remove k ptr q t)"
  by (simp add: levels_nonempty_def tree_remove_def)

lemma levels_nonempty_tree_limit:
  "levels_nonempty t \<Longrightarrow> levels_nonempty (tree_limit ptr ord t)"
  by (auto simp: levels_nonempty_def tree_limit_def set_insort_key new_limit_def
      limit_append_def split: option.splits)

lemma levels_nonempty_volume_sub:
  "levels_nonempty t \<Longrightarrow> levels_nonempty (tree_volume_sub q (limit_volume_sub k q' t))"
  by (auto simp: levels_nonempty_def tree_volume_sub_def limit_volume_sub_def)

lemma market_levels_nonempty:
  "\<forall>s'. levels_nonempty (tree s' w) \<Longrightarrow>
     \<forall>s'. levels_nonempty (tree s' (snd (LimitTree_market s taker w)))"
proof (induction s taker w rule: LimitTree_market.induct)
  case (1 s taker w)
  show ?case
  proof (cases "quantity taker = 0")
    case True
    with "1.prems" show ?thesis by (simp add: LimitTree_market.simps)
  next
    case q: False
    show ?thesis
    proof (cases "head_of_best s w")
      case None
      with q "1.prems" show ?thesis by (simp add: LimitTree_market.simps)
    next
      case (Some x)
      obtain b ptr m where hb: "head_of_best s w = Some (b, ptr, m)"
        using Some by (cases x) auto
      show ?thesis
      proof (cases "can_match s (key b) (price taker)")
        case False
        with q hb "1.prems" show ?thesis by (simp add: LimitTree_market.simps)
      next
        case cm: True
        consider (more) "quantity m < quantity taker" | (exact) "quantity m = quantity taker"
          | (part) "quantity taker < quantity m" by (meson linorder_neqE)
        then show ?thesis
        proof cases
          case more
          let ?t = "taker\<lparr>quantity := quantity taker - quantity m\<rparr>"
          let ?w = "match_and_continue s b ptr m ?t w"
          have pre: "\<forall>s'. levels_nonempty (tree s' ?w)"
            using "1.prems"
            by (simp add: tree_match_and_continue_any levels_nonempty_tree_remove)
          have eq: "LimitTree_market s taker w = LimitTree_market s ?t ?w"
            using q hb cm more by (subst LimitTree_market.simps) simp
          from "1.IH" [of "(b, ptr, m)" b "(ptr, m)" ptr m, OF q hb _ _ _ more pre] cm eq
          show ?thesis by simp
        next
          case exact
          have "LimitTree_market s taker w = (taker\<lparr>quantity := 0\<rparr>, match_exact s b ptr m taker w)"
            using q hb cm exact by (subst LimitTree_market.simps) simp
          with "1.prems" show ?thesis
            by (simp add: tree_match_exact_any levels_nonempty_tree_remove)
        next
          case part
          have "LimitTree_market s taker w = (taker\<lparr>quantity := 0\<rparr>, match_partial s b ptr m taker w)"
            using q hb cm part by (subst LimitTree_market.simps) auto
          with "1.prems" show ?thesis
            by (simp add: tree_match_partial_any levels_nonempty_volume_sub)
        qed
      qed
    qed
  qed
qed

lemma limit_on_levels_nonempty:
  assumes ne: "\<forall>s'. levels_nonempty (tree s' w)"
  shows "\<forall>s'. levels_nonempty (tree s' (snd (limit_on s a q p w)))"
proof -
  define sq where "sq = sequence w"
  define new where "new = \<lparr>uid = sq, side = s, quantity = q, price = p, account = a\<rparr>"
  define w1 where "w1 = w\<lparr>order_map := emplace sq new (order_map w)\<rparr>"
  define ord where "ord = at_or (order_map w) sq new"
  from ne have ne1: "\<forall>s'. levels_nonempty (tree s' w1)" by (simp add: w1_def)
  have rest: "\<forall>s'. levels_nonempty (tree s' ((LimitTree_limit s sq o' w')\<lparr>sequence := sq + 1\<rparr>))"
    if "\<forall>s'. levels_nonempty (tree s' w')" for o' w'
    using that by (simp add: tree_LimitTree_limit levels_nonempty_tree_limit)
  show ?thesis
  proof (cases "crosses s p w1")
    case False
    then have "snd (limit_on s a q p w) = (LimitTree_limit s sq ord w1)\<lparr>sequence := sq + 1\<rparr>"
      by (simp add: limit_on_def Let_def sq_def new_def w1_def ord_def del: crosses_order_map)
    with rest [OF ne1] show ?thesis by simp
  next
    case True
    obtain o' w2 where m: "LimitTree_market (opposite s) ord w1 = (o', w2)"
      by (cases "LimitTree_market (opposite s) ord w1") auto
    from market_levels_nonempty [OF ne1, of "opposite s" ord] m
    have ne2: "\<forall>s'. levels_nonempty (tree s' w2)" by simp
    define w3 where "w3 = w2\<lparr>order_map := (order_map w2)(sq \<mapsto> o')\<rparr>"
    from ne2 have ne3: "\<forall>s'. levels_nonempty (tree s' w3)" by (simp add: w3_def)
    have "snd (limit_on s a q p w)
        = (if quantity o' = 0 then erase sq w3
           else (LimitTree_limit s sq o' w3)\<lparr>sequence := sq + 1\<rparr>)"
      using True m
      by (simp add: limit_on_def Let_def sq_def [symmetric] new_def [symmetric]
          w1_def [symmetric] ord_def [symmetric] w3_def del: crosses_order_map)
    with rest [OF ne3] ne3 show ?thesis by simp
  qed
qed

lemma cancel_levels_nonempty:
  assumes "\<forall>s. levels_nonempty (tree s w)" and "cancel order_id w = Inr w'"
  shows "\<forall>s. levels_nonempty (tree s w')"
  using assms
  by (auto simp: cancel_def tree_LimitTree_cancel levels_nonempty_tree_remove
      split: option.splits)

lemma reduce_levels_nonempty:
  assumes "\<forall>s. levels_nonempty (tree s w)" and "reduce order_id q w = Inr w'"
  shows "\<forall>s. levels_nonempty (tree s w')"
  using assms
  by (auto simp: reduce_def Let_def tree_LimitTree_cancel tree_set_tree_other
      levels_nonempty_tree_remove levels_nonempty_volume_sub split: option.splits if_splits)

lemma run_levels_nonempty:
  "\<forall>s. levels_nonempty (tree s w) \<Longrightarrow> \<forall>s. levels_nonempty (tree s (snd (run rs w)))"
proof (induction rs arbitrary: w)
  case Nil
  then show ?case by simp
next
  case (Cons r rs)
  show ?case
  proof (cases r)
    case (LimitRequest a s q p)
    from Cons.IH [OF limit_on_levels_nonempty [OF Cons.prems, of s a q p]] LimitRequest
    show ?thesis by (simp add: run_limit del: run.simps)
  next
    case (MarketRequest a s q)
    from Cons.IH [of "market a s q w"]
      market_levels_nonempty [OF Cons.prems,
        of "opposite s" "\<lparr>uid = sequence w, side = s, quantity = q, price = 0, account = a\<rparr>"]
      MarketRequest
    show ?thesis by (simp add: market_as_market_on)
  next
    case (CancelRequest order_id)
    show ?thesis
    proof (cases "cancel order_id w")
      case (Inl e)
      from Cons.IH [OF Cons.prems] show ?thesis using CancelRequest Inl by simp
    next
      case (Inr w1)
      from Cons.IH [OF cancel_levels_nonempty [OF Cons.prems Inr]]
      show ?thesis using CancelRequest Inr by simp
    qed
  next
    case (ReduceRequest order_id q)
    show ?thesis
    proof (cases "reduce order_id q w")
      case (Inl e)
      from Cons.IH [OF Cons.prems] show ?thesis using ReduceRequest Inl by simp
    next
      case (Inr w1)
      from Cons.IH [OF reduce_levels_nonempty [OF Cons.prems Inr]]
      show ?thesis using ReduceRequest Inr by simp
    qed
  qed
qed

lemma levels_nonempty_new_book: "levels_nonempty (tree s (new_book accts conns))"
  by (cases s) (simp_all add: levels_nonempty_def new_book_def tree_def empty_tree_def)

lemma reachable_books:
  assumes "finite A" and "\<forall>r \<in> set rs. request_accounts r \<subseteq> A"
    and "unat (sequence (new_book accts conns)) + length rs < 2 ^ 64"
  shows "book_inv A (snd (run rs (new_book accts conns)))
       \<and> (\<forall>s. levels_nonempty (tree s (snd (run rs (new_book accts conns)))))"
  using run_invariant [OF assms(1) book_inv_new_book assms(2,3)]
    run_levels_nonempty [of "new_book accts conns" rs]
  by (simp add: levels_nonempty_new_book)

section \<open>Sequence gaps on the feed\<close>

lemma handle_last_sequence:
  "handle m r = Inr r' \<Longrightarrow> last_sequence r' = last_sequence r"
  by (cases m) (auto simp: handle_def notify_def split: if_splits sum.splits)

lemma handle_gaps: "handle m r = Inr r' \<Longrightarrow> gaps r' = gaps r"
  by (cases m) (auto simp: handle_def notify_def gaps_def split: if_splits sum.splits)

lemma handle_applied:
  "applied r1 = applied r2 \<Longrightarrow>
     map_sum id applied (handle m r1) = map_sum id applied (handle m r2)"
  by (cases m) (auto simp: handle_def notify_def applied_def split: if_splits sum.splits)

lemma applied_check_sequence [simp]: "applied (check_sequence sq r) = applied r"
  by (simp add: check_sequence_def applied_def Let_def)

lemma last_check_sequence [simp]: "last_sequence (check_sequence sq r) = sq"
  by (simp add: check_sequence_def Let_def)

lemma gaps_check_sequence:
  "gaps (check_sequence sq r)
     = (if sq = last_sequence r + 1 then gaps r
        else gaps r @ [OutOfSequence sq (last_sequence r)])"
  by (simp add: check_sequence_def Let_def gaps_def)

lemma read_message_applied:
  assumes "applied r1 = applied r2" and "packet_message p1 = packet_message p2"
  shows "map_sum id applied (read_message p1 r1) = map_sum id applied (read_message p2 r2)"
  using handle_applied [of "check_sequence (packet_sequence p1) r1"
      "check_sequence (packet_sequence p2) r2" "packet_message p2"] assms
  by (simp add: read_message_def)

lemma read_messages_applied:
  "applied r1 = applied r2 \<Longrightarrow> map packet_message ps1 = map packet_message ps2 \<Longrightarrow>
     map_sum id applied (read_messages ps1 r1) = map_sum id applied (read_messages ps2 r2)"
proof (induction ps1 arbitrary: ps2 r1 r2)
  case Nil
  then show ?case by simp
next
  case (Cons p ps1)
  then obtain p' ps' where ps2: "ps2 = p' # ps'" "packet_message p = packet_message p'"
    "map packet_message ps1 = map packet_message ps'" by (cases ps2) auto
  from read_message_applied [OF Cons.prems(1) ps2(2)]
  have h: "map_sum id applied (read_message p r1) = map_sum id applied (read_message p' r2)" .
  show ?case
  proof (cases "read_message p r1")
    case (Inl e)
    with h have "read_message p' r2 = Inl e" by (cases "read_message p' r2") auto
    with Inl ps2 show ?thesis by simp
  next
    case (Inr r1')
    with h obtain r2' where r2: "read_message p' r2 = Inr r2'" "applied r1' = applied r2'"
      by (cases "read_message p' r2") auto
    from Cons.IH [OF r2(2) ps2(3)] Inr r2 ps2 show ?thesis by simp
  qed
qed

lemma listening_reached:
  "read_messages
     [\<lparr>packet_sequence = 1, packet_message = StartOfSession\<rparr>,
      \<lparr>packet_sequence = 2, packet_message = AddOrder 7 100 10 Sell\<rparr>] new_receiver
   = Inr listening"
  by (simp add: read_message_def check_sequence_def handle_def notify_def new_receiver_def
      listening_def mirror_limit_def mirror_limit_sell_def mirror_emplace_def mirror_crosses_def best_def
      empty_tree_def mirror_rest_def set_mirror_tree_def mirror_tree_def tree_limit_def
      find_limit_def new_limit_def as_order_def Let_def)

text \<open>
  Claim C9. \<^verbatim>\<open>read_message\<close> compares the sequence of the packet with the last
  sequence plus one (in 32 bits). Whenever the packet is handled, the last sequence is
  the sequence of the packet, and a gap is logged exactly when the two differ (the line
  names the sequence received and, as expected, the former last sequence). The packet is
  handled as it would be without the check, and over any number of packets the book, the
  session flag and the messages passed on depend on the messages only, not on their
  sequence numbers: no packet is rejected for its sequence.
\<close>

theorem sequence_gap_resynchronises:
  "(\<forall>r'. read_message p r = Inr r' \<longrightarrow>
       last_sequence r' = packet_sequence p
     \<and> gaps r' = (if packet_sequence p = last_sequence r + 1 then gaps r
                  else gaps r @ [OutOfSequence (packet_sequence p) (last_sequence r)]))
   \<and> map_sum id applied (read_message p r) = map_sum id applied (handle (packet_message p) r)
   \<and> (applied r1 = applied r2 \<and> map packet_message ps1 = map packet_message ps2 \<longrightarrow>
        map_sum id applied (read_messages ps1 r1)
          = map_sum id applied (read_messages ps2 r2))"
proof (intro conjI allI impI)
  fix r'
  assume rm: "read_message p r = Inr r'"
  then have h: "handle (packet_message p) (check_sequence (packet_sequence p) r) = Inr r'"
    by (simp add: read_message_def)
  from handle_last_sequence [OF h] show "last_sequence r' = packet_sequence p" by simp
  from handle_gaps [OF h]
  show "gaps r' = (if packet_sequence p = last_sequence r + 1 then gaps r
                   else gaps r @ [OutOfSequence (packet_sequence p) (last_sequence r)])"
    by (simp add: gaps_check_sequence)
next
  show "map_sum id applied (read_message p r) = map_sum id applied (handle (packet_message p) r)"
    unfolding read_message_def by (rule handle_applied) simp
next
  assume "applied r1 = applied r2 \<and> map packet_message ps1 = map packet_message ps2"
  then show "map_sum id applied (read_messages ps1 r1)
      = map_sum id applied (read_messages ps2 r2)"
    using read_messages_applied by blast
qed

theorem sequence_gap_resynchronises_witness:
  "(\<exists>r'. read_message \<lparr>packet_sequence = 5, packet_message = DeleteOrder 7\<rparr> listening = Inr r'
        \<and> last_sequence r' = 5
        \<and> gaps r' = [OutOfSequence 5 2]
        \<and> \<not> mirror_has 7 (book r')
        \<and> did_receive r' = [StartOfSession, AddOrder 7 100 10 Sell, DeleteOrder 7])
   \<and> applied listening = applied listening
   \<and> map packet_message feed_with_gap = map packet_message feed_in_order
   \<and> map_sum id applied (read_messages feed_with_gap listening)
       = map_sum id applied (read_messages feed_in_order listening)
   \<and> (\<exists>r'. read_messages feed_with_gap listening = Inr r'
        \<and> last_sequence r' = 6
        \<and> gaps r' = [OutOfSequence 5 2]
        \<and> mirror_has 8 (book r') \<and> \<not> mirror_has 7 (book r'))"
proof -
  let ?p = "\<lparr>packet_sequence = 5, packet_message = DeleteOrder 7\<rparr>"
  have m: "map packet_message feed_with_gap = map packet_message feed_in_order"
    by (simp add: feed_with_gap_def feed_in_order_def)
  obtain r' where r': "read_message ?p listening = Inr r'"
    and b: "\<not> mirror_has 7 (book r')"
    and d: "did_receive r' = [StartOfSession, AddOrder 7 100 10 Sell, DeleteOrder 7]"
    by (simp add: read_message_def check_sequence_def handle_def notify_def listening_def
        mirror_has_def mirror_cancel_def mirror_remove_def set_mirror_tree_def
        mirror_tree_def Let_def)
  obtain r'' where r'': "read_messages feed_with_gap listening = Inr r''"
    and l: "last_sequence r'' = 6" and g: "gaps r'' = [OutOfSequence 5 2]"
    and h: "mirror_has 8 (book r'')" "\<not> mirror_has 7 (book r'')"
    by (simp add: feed_with_gap_def read_message_def check_sequence_def handle_def
        notify_def listening_def mirror_has_def mirror_cancel_def mirror_remove_def
        set_mirror_tree_def mirror_tree_def gaps_def mirror_limit_def mirror_limit_buy_def mirror_emplace_def
        mirror_crosses_def best_def empty_tree_def mirror_rest_def tree_remove_def
        limit_remove_def tree_limit_def find_limit_def new_limit_def as_order_def Let_def)
  from sequence_gap_resynchronises [of ?p listening listening listening
      feed_with_gap feed_in_order] r' m
  have "last_sequence r' = 5" "gaps r' = [OutOfSequence 5 2]"
    "map_sum id applied (read_messages feed_with_gap listening)
       = map_sum id applied (read_messages feed_in_order listening)"
    by (simp_all add: listening_def gaps_def)
  with r' b d m r'' l g h show ?thesis by simp
qed

end
